theory Spec2Isabelle
  imports Complex_Main "HOL-Library.Sublist" "HOL-Library.AList"
begin

section \<open>Python values used by the harness\<close>

text \<open>
  The two scripts \<^verbatim>\<open>grid-search.py\<close> and \<^verbatim>\<open>create-optimal-binaries.py\<close> are embedded
  function by function. Strings are lists of characters (code points below 256), the
  substring test \<^verbatim>\<open>a in b\<close> is \<^const>\<open>sublist\<close>, a \<^verbatim>\<open>dict\<close> is an association list
  in insertion order, and every exception of the source is a value of \<open>py_error\<close>.
  A Python float is modelled by the exact decimal value it was read from (a rational):
  the program only compares floats and prints them.
\<close>

datatype py_error =
    CalledProcessError
  | OSError
  | AttributeError
  | ValueError
  | IndexError
  | KeyError

type_synonym gate_accuracies = "(string \<times> rat) list"

definition GATE_NAMES :: "string list" where
  "GATE_NAMES = [''AND'', ''OR'', ''ASSIGN'', ''NOT'', ''NAND'', ''XOR'', ''MUX'']"

definition DELAYS :: "int list" where
  "DELAYS = [32, 48, 64, 96, 128, 192, 256, 512, 1024]"

text \<open>\<^verbatim>\<open>range(start, stop, step)\<close> for a positive step, as a list.\<close>

function py_range :: "int \<Rightarrow> int \<Rightarrow> int \<Rightarrow> int list" where
  "py_range start stop step =
     (if 0 < step \<and> start < stop then start # py_range (start + step) stop step else [])"
  by pat_completeness auto
termination
  by (relation "measure (\<lambda>(start, stop, step). nat (stop - start))") auto

declare py_range.simps [simp del]

definition THRESHOLDS :: "int list" where
  "THRESHOLDS = py_range 100 301 25"

text \<open>\<^verbatim>\<open>xs.index(x)\<close>: the position of the first element equal to \<open>x\<close>.\<close>

fun py_index_of :: "'a list \<Rightarrow> 'a \<Rightarrow> py_error + nat" where
  "py_index_of [] x = Inl ValueError"
| "py_index_of (y # ys) x =
     (if y = x then Inr 0
      else case py_index_of ys x of Inl e \<Rightarrow> Inl e | Inr i \<Rightarrow> Inr (Suc i))"

text \<open>\<^verbatim>\<open>xs[i]\<close>: a negative index counts from the end.\<close>

definition py_getitem :: "'a list \<Rightarrow> int \<Rightarrow> py_error + 'a" where
  "py_getitem xs i =
     (if 0 \<le> i \<and> i < int (length xs) then Inr (xs ! nat i)
      else if i < 0 \<and> - int (length xs) \<le> i then Inr (xs ! nat (int (length xs) + i))
      else Inl IndexError)"

subsection \<open>\<^verbatim>\<open>str.splitlines\<close>\<close>

definition is_linebreak :: "char \<Rightarrow> bool" where
  "is_linebreak c \<longleftrightarrow>
     c \<in> set [CHR 0x0A, CHR 0x0D, CHR 0x0B, CHR 0x0C, CHR 0x1C, CHR 0x1D, CHR 0x1E, CHR 0x85]"

fun splitlines_aux :: "string \<Rightarrow> string \<Rightarrow> string list" where
  "splitlines_aux cur [] = (if cur = [] then [] else [rev cur])"
| "splitlines_aux cur [c] = (if is_linebreak c then [rev cur] else [rev (c # cur)])"
| "splitlines_aux cur (c # d # cs) =
     (if c = CHR 0x0D \<and> d = CHR 0x0A then rev cur # splitlines_aux [] cs
      else if is_linebreak c then rev cur # splitlines_aux [] (d # cs)
      else splitlines_aux (c # cur) (d # cs))"

definition splitlines :: "string \<Rightarrow> string list" where
  "splitlines s = splitlines_aux [] s"

subsection \<open>The regular expressions of the two scripts\<close>

text \<open>
  The patterns of the source are sequences of literal characters, the wildcard \<^verbatim>\<open>.\<close>
  (any character but a newline) and one greedy repetition \<^verbatim>\<open>\d+\<close> or \<^verbatim>\<open>[0-9.]+\<close>.
  \<open>match_len p s\<close> is the length of the match of \<open>p\<close> anchored at the start of \<open>s\<close>;
  a repetition takes the longest run first and gives characters back one at a time.
\<close>

datatype char_class = Digit | DigitDot

datatype atom = Lit char | AnyChar | Rep1 char_class

definition is_digit :: "char \<Rightarrow> bool" where
  "is_digit c \<longleftrightarrow> c \<in> set ''0123456789''"

fun in_class :: "char_class \<Rightarrow> char \<Rightarrow> bool" where
  "in_class Digit c = is_digit c"
| "in_class DigitDot c = (is_digit c \<or> c = CHR ''.'')"

fun match_len :: "atom list \<Rightarrow> string \<Rightarrow> nat option"
  and rep_back :: "atom list \<Rightarrow> string \<Rightarrow> nat \<Rightarrow> nat option" where
  "match_len [] s = Some 0"
| "match_len (Lit c # r) s =
     (case s of [] \<Rightarrow> None
      | x # xs \<Rightarrow> if x = c then map_option Suc (match_len r xs) else None)"
| "match_len (AnyChar # r) s =
     (case s of [] \<Rightarrow> None
      | x # xs \<Rightarrow> if x \<noteq> CHR 0x0A then map_option Suc (match_len r xs) else None)"
| "match_len (Rep1 k # r) s = rep_back r s (length (takeWhile (in_class k) s))"
| "rep_back r s 0 = None"
| "rep_back r s (Suc n) =
     (case match_len r (drop (Suc n) s) of
        Some m \<Rightarrow> Some (Suc n + m)
      | None \<Rightarrow> rep_back r s n)"

text \<open>\<^verbatim>\<open>re.search\<close>: start and length of the leftmost match.\<close>

fun re_search :: "atom list \<Rightarrow> string \<Rightarrow> (nat \<times> nat) option" where
  "re_search p [] = (case match_len p [] of Some n \<Rightarrow> Some (0, n) | None \<Rightarrow> None)"
| "re_search p (c # cs) =
     (case match_len p (c # cs) of
        Some n \<Rightarrow> Some (0, n)
      | None \<Rightarrow> map_option (\<lambda>(i, n). (Suc i, n)) (re_search p cs))"

definition lits :: "string \<Rightarrow> atom list" where
  "lits s = map Lit s"

subsection \<open>\<^verbatim>\<open>float\<close> on the text of a regular-expression group\<close>

text \<open>
  \<^verbatim>\<open>float(s)\<close> for a text \<open>s\<close> over the alphabet \<^verbatim>\<open>[0-9.]\<close>, the only texts the
  program converts: digits with at most one point and at least one digit; anything else
  raises \<^verbatim>\<open>ValueError\<close>.
\<close>

definition digit_val :: "char \<Rightarrow> nat" where
  "digit_val c = of_char c - 48"

definition digits_val :: "string \<Rightarrow> nat" where
  "digits_val ds = foldl (\<lambda>a c. 10 * a + digit_val c) 0 ds"

definition py_float :: "string \<Rightarrow> py_error + rat" where
  "py_float s =
     (let ip = takeWhile is_digit s; rest = dropWhile is_digit s
      in case rest of
           [] \<Rightarrow> if ip = [] then Inl ValueError else Inr (of_nat (digits_val ip))
         | c # fr \<Rightarrow>
             if c = CHR ''.'' \<and> list_all is_digit fr \<and> (ip \<noteq> [] \<or> fr \<noteq> [])
             then Inr (of_nat (digits_val ip) + of_nat (digits_val fr) / 10 ^ length fr)
             else Inl ValueError)"

section \<open>The result parser of \<^verbatim>\<open>test_parameters\<close> (grid-search.py, lines 59 to 71)\<close>

definition marker :: string where
  "marker = ''Correct rate: (avg, std)''"

definition gate_header :: "string \<Rightarrow> string" where
  "gate_header gate = ''=== '' @ gate @ '' gate''"

text \<open>The pattern \<^verbatim>\<open>\(([0-9.]+)%\<close>.\<close>

definition accuracy_pattern :: "atom list" where
  "accuracy_pattern = [Lit (CHR ''(''), Rep1 DigitDot, Lit (CHR ''%'')]"

text \<open>The loop over \<^verbatim>\<open>GATE_NAMES\<close> stops at the first gate whose header is in the line.\<close>

definition find_gate :: "string \<Rightarrow> string option" where
  "find_gate prev_line = List.find (\<lambda>gate. sublist (gate_header gate) prev_line) GATE_NAMES"

text \<open>\<^verbatim>\<open>float(re.search(r'\(([0-9.]+)%', line).group(1))\<close>\<close>

definition extract_accuracy :: "string \<Rightarrow> py_error + rat" where
  "extract_accuracy line =
     (case re_search accuracy_pattern line of
        None \<Rightarrow> Inl AttributeError
      | Some (i, n) \<Rightarrow> py_float (take (n - 2) (drop (Suc i) line)))"

text \<open>\<^verbatim>\<open>lines[lines.index(line) - 1]\<close>, the line the parser looks back at.\<close>

definition prev_line :: "string list \<Rightarrow> string \<Rightarrow> py_error + string" where
  "prev_line lines line =
     (case py_index_of lines line of
        Inl e \<Rightarrow> Inl e
      | Inr idx \<Rightarrow> py_getitem lines (int idx - 1))"

text \<open>One iteration of the loop over the lines of the capture.\<close>

definition parse_step :: "string list \<Rightarrow> string \<Rightarrow> gate_accuracies \<Rightarrow> py_error + gate_accuracies" where
  "parse_step lines line acc =
     (if sublist marker line then
        case prev_line lines line of
          Inl e \<Rightarrow> Inl e
        | Inr prev \<Rightarrow>
            (case find_gate prev of
               None \<Rightarrow> Inr acc
             | Some gate \<Rightarrow>
                 (case extract_accuracy line of
                    Inl e \<Rightarrow> Inl e
                  | Inr accuracy \<Rightarrow> Inr (AList.update gate accuracy acc)))
      else Inr acc)"

fun parse_loop :: "string list \<Rightarrow> string list \<Rightarrow> gate_accuracies \<Rightarrow> py_error + gate_accuracies" where
  "parse_loop lines [] acc = Inr acc"
| "parse_loop lines (line # rest) acc =
     (case parse_step lines line acc of
        Inl e \<Rightarrow> Inl e
      | Inr acc' \<Rightarrow> parse_loop lines rest acc')"

definition parse_lines :: "string list \<Rightarrow> py_error + gate_accuracies" where
  "parse_lines lines = parse_loop lines lines []"

definition parse_stdout :: "string \<Rightarrow> py_error + gate_accuracies" where
  "parse_stdout out = parse_lines (splitlines out)"

section \<open>Variant generation: \<^verbatim>\<open>re.sub\<close> on the two templates\<close>

text \<open>
  \<^verbatim>\<open>re.sub(p, repl, s)\<close> scans \<open>s\<close> from left to right; where \<open>p\<close> matches, the match
  is replaced and the scan goes on behind it (the counter is the number of characters
  of the current match still to be skipped). The replacement texts of the program hold
  no backslash, so they are inserted as they are. An empty match inserts the
  replacement and copies one character.
\<close>

fun sub_scan :: "atom list \<Rightarrow> string \<Rightarrow> nat \<Rightarrow> string \<Rightarrow> string" where
  "sub_scan p repl k [] =
     (if k = 0 then (case match_len p [] of Some n \<Rightarrow> repl | None \<Rightarrow> []) else [])"
| "sub_scan p repl (Suc k) (c # cs) = sub_scan p repl k cs"
| "sub_scan p repl 0 (c # cs) =
     (case match_len p (c # cs) of
        None \<Rightarrow> c # sub_scan p repl 0 cs
      | Some 0 \<Rightarrow> repl @ c # sub_scan p repl 0 cs
      | Some (Suc n) \<Rightarrow> repl @ sub_scan p repl n cs)"

definition re_sub :: "atom list \<Rightarrow> string \<Rightarrow> string \<Rightarrow> string" where
  "re_sub p repl s = sub_scan p repl 0 s"

text \<open>\<^verbatim>\<open>re.findall(p, s)\<close>: the texts of the matches the same scan finds, in order.\<close>

fun findall_scan :: "atom list \<Rightarrow> nat \<Rightarrow> string \<Rightarrow> string list" where
  "findall_scan p k [] =
     (if k = 0 then (case match_len p [] of Some n \<Rightarrow> [[]] | None \<Rightarrow> []) else [])"
| "findall_scan p (Suc k) (c # cs) = findall_scan p k cs"
| "findall_scan p 0 (c # cs) =
     (case match_len p (c # cs) of
        None \<Rightarrow> findall_scan p 0 cs
      | Some 0 \<Rightarrow> [] # findall_scan p 0 cs
      | Some (Suc n) \<Rightarrow> take (Suc n) (c # cs) # findall_scan p n cs)"

definition re_findall :: "atom list \<Rightarrow> string \<Rightarrow> string list" where
  "re_findall p s = findall_scan p 0 s"

text \<open>\<^verbatim>\<open>str(n)\<close> for an integer.\<close>

definition digit_char :: "nat \<Rightarrow> char" where
  "digit_char n = char_of (48 + n)"

function str_nat :: "nat \<Rightarrow> string" where
  "str_nat n = (if n < 10 then [digit_char n] else str_nat (n div 10) @ [digit_char (n mod 10)])"
  by pat_completeness auto
termination
  by (relation "measure id") auto

declare str_nat.simps [simp del]

definition py_str :: "int \<Rightarrow> string" where
  "py_str i = (if i < 0 then CHR ''-'' # str_nat (nat (- i)) else str_nat (nat i))"

text \<open>\<^verbatim>\<open>str.lower\<close> on the letters A to Z.\<close>

definition lower_char :: "char \<Rightarrow> char" where
  "lower_char c = (if c \<in> set ''ABCDEFGHIJKLMNOPQRSTUVWXYZ'' then char_of (of_char c + (32::nat)) else c)"

definition py_lower :: "string \<Rightarrow> string" where
  "py_lower s = map lower_char s"

text \<open>The patterns, as the source writes them.\<close>

definition threshold_pattern :: "atom list" where
  "threshold_pattern = lits ''#define THRESHOLD '' @ [Rep1 Digit]"

definition delay_pattern :: "atom list" where
  "delay_pattern = lits ''#define DELAY '' @ [Rep1 Digit]"

definition include_pattern :: "atom list" where
  \<open>include_pattern = lits ''#include "gates/compose'' @ [AnyChar] @ lits ''cpp"''\<close>

definition placeholder_pattern :: "atom list" where
  \<open>placeholder_pattern =
     lits ''test_gate("GATE_NAME_PLACEHOLDER", GATE_FUNCTION_PLACEHOLDER, GATE_INPUTS_PLACEHOLDER);''\<close>

text \<open>The characters of the placeholder call.\<close>

definition placeholder_text :: string where
  \<open>placeholder_text =
     ''test_gate("GATE_NAME_PLACEHOLDER", GATE_FUNCTION_PLACEHOLDER, GATE_INPUTS_PLACEHOLDER);''\<close>

definition threshold_directive :: "int \<Rightarrow> string" where
  "threshold_directive threshold = ''#define THRESHOLD '' @ py_str threshold"

definition delay_directive :: "int \<Rightarrow> string" where
  "delay_directive delay = ''#define DELAY '' @ py_str delay"

text \<open>Lines 21 and 22 of grid-search.py, lines 40 and 41 of create-optimal-binaries.py.\<close>

definition modified_content_compose :: "int \<Rightarrow> int \<Rightarrow> string \<Rightarrow> string" where
  "modified_content_compose threshold delay content_compose =
     re_sub delay_pattern (delay_directive delay)
       (re_sub threshold_pattern (threshold_directive threshold) content_compose)"

text \<open>Lines 31 to 33 of grid-search.py.\<close>

definition modified_content_main :: "int \<Rightarrow> int \<Rightarrow> string \<Rightarrow> string" where
  \<open>modified_content_main threshold delay content_main =
     re_sub include_pattern ''#include "gates/compose_temp.cpp"''
       (re_sub delay_pattern (delay_directive delay)
         (re_sub threshold_pattern (threshold_directive threshold) content_main))\<close>

definition GATE_FUNCTIONS :: "(string \<times> string \<times> int) list" where
  "GATE_FUNCTIONS =
     [(''AND'', ''do_and_gate'', 2), (''OR'', ''do_or_gate'', 2), (''ASSIGN'', ''do_assign_gate'', 1),
      (''NOT'', ''do_not_gate'', 1), (''NAND'', ''do_nand_gate'', 2), (''XOR'', ''do_xor_gate'', 2),
      (''MUX'', ''do_mux_gate'', 3)]"

definition BEST_CONFIGS :: "(string \<times> int \<times> int) list" where
  "BEST_CONFIGS =
     [(''AND'', 225, 128), (''OR'', 275, 128), (''ASSIGN'', 250, 128), (''NOT'', 150, 512),
      (''NAND'', 100, 512), (''XOR'', 275, 1024), (''MUX'', 275, 256)]"

definition test_gate_call :: "string \<Rightarrow> string \<Rightarrow> int \<Rightarrow> string" where
  \<open>test_gate_call gate_name gate_function input_count =
     ''test_gate("'' @ gate_name @ ''", '' @ gate_function @ '', '' @ py_str input_count @ '');''\<close>

text \<open>Lines 53 to 59 of create-optimal-binaries.py.\<close>

definition modified_content_main_gate ::
    "string \<Rightarrow> string \<Rightarrow> int \<Rightarrow> int \<Rightarrow> int \<Rightarrow> string \<Rightarrow> string" where
  \<open>modified_content_main_gate gate_name gate_function input_count threshold delay content_main =
     re_sub placeholder_pattern (test_gate_call gate_name gate_function input_count)
       (re_sub include_pattern (''#include "gates/compose_'' @ py_lower gate_name @ ''.cpp"'')
         (re_sub delay_pattern (delay_directive delay)
           (re_sub threshold_pattern (threshold_directive threshold) content_main)))\<close>

section \<open>Files and external processes\<close>

text \<open>
  The file system is a map from path to content. An external command is run by the
  operating system, a function from the argument vector and the files to the outcome
  and the files it leaves; nothing is assumed about it.
\<close>

type_synonym fs = "string \<rightharpoonup> string"

datatype proc_result = Launch_Failed | Exited int string

type_synonym os = "string list \<Rightarrow> fs \<Rightarrow> proc_result \<times> fs"

text \<open>
  \<^verbatim>\<open>subprocess.run(argv, check=True, ...)\<close> raises \<^verbatim>\<open>CalledProcessError\<close> on a nonzero
  exit status; a command that cannot be started raises an \<^verbatim>\<open>OSError\<close> with or
  without \<^verbatim>\<open>check\<close>.
\<close>

definition run_checked :: "os \<Rightarrow> string list \<Rightarrow> fs \<Rightarrow> (py_error + string) \<times> fs" where
  "run_checked sys argv files =
     (case sys argv files of
        (Launch_Failed, files') \<Rightarrow> (Inl OSError, files')
      | (Exited rc out, files') \<Rightarrow>
          (if rc \<noteq> 0 then Inl CalledProcessError else Inr out, files'))"

definition run_unchecked :: "os \<Rightarrow> string list \<Rightarrow> fs \<Rightarrow> (py_error + string) \<times> fs" where
  "run_unchecked sys argv files =
     (case sys argv files of
        (Launch_Failed, files') \<Rightarrow> (Inl OSError, files')
      | (Exited rc out, files') \<Rightarrow> (Inr out, files'))"

text \<open>\<^verbatim>\<open>if os.path.exists(p): os.remove(p)\<close>\<close>

definition remove_if_exists :: "string \<Rightarrow> fs \<Rightarrow> fs" where
  "remove_if_exists p files = (if files p \<noteq> None then files(p := None) else files)"

definition AMT_TRIALS :: int where
  "AMT_TRIALS = 10"

section \<open>\<^verbatim>\<open>test_parameters\<close> (grid-search.py, lines 15 to 83)\<close>

text \<open>The body of the \<^verbatim>\<open>try\<close> block: three checked build commands, the unchecked run, the parser.\<close>

definition try_body :: "os \<Rightarrow> fs \<Rightarrow> (py_error + gate_accuracies) \<times> fs" where
  "try_body sys files =
     (case run_checked sys [''make'', ''clean''] files of
        (Inl e, files1) \<Rightarrow> (Inl e, files1)
      | (Inr out1, files1) \<Rightarrow>
     (case run_checked sys
             [''g++'', ''-O2'', ''-D'', ''INTEL'', ''-c'', ''-o'', ''build/compose.o'', ''gates/compose.cpp'']
             files1 of
        (Inl e, files2) \<Rightarrow> (Inl e, files2)
      | (Inr out2, files2) \<Rightarrow>
     (case run_checked sys
             [''g++'', ''-O2'', ''-D'', ''INTEL'', ''-o'', ''main_temp.elf'', ''main_temp.cpp'',
              ''build/compose.o'', ''-lm'']
             files2 of
        (Inl e, files3) \<Rightarrow> (Inl e, files3)
      | (Inr out3, files3) \<Rightarrow>
     (case run_unchecked sys [''./main_temp.elf'', ''-t'', py_str AMT_TRIALS] files3 of
        (Inl e, files4) \<Rightarrow> (Inl e, files4)
      | (Inr out, files4) \<Rightarrow> (parse_stdout out, files4)))))"

text \<open>\<^verbatim>\<open>except subprocess.CalledProcessError: return {}\<close>; every other exception goes on.\<close>

definition except_handler :: "py_error + gate_accuracies \<Rightarrow> py_error + gate_accuracies" where
  "except_handler r = (case r of Inl CalledProcessError \<Rightarrow> Inr [] | _ \<Rightarrow> r)"

text \<open>The \<^verbatim>\<open>finally\<close> block.\<close>

definition cleanup :: "fs \<Rightarrow> fs" where
  "cleanup files =
     remove_if_exists ''gates/compose_temp.cpp''
       (remove_if_exists ''main_temp.elf''
         (remove_if_exists ''main_temp.cpp'' files))"

text \<open>
  Reading a template that is not there raises (an \<^verbatim>\<open>OSError\<close>) before the \<^verbatim>\<open>try\<close> block
  is entered.
\<close>

definition test_parameters :: "int \<Rightarrow> int \<Rightarrow> os \<Rightarrow> fs \<Rightarrow> (py_error + gate_accuracies) \<times> fs" where
  "test_parameters threshold delay sys files =
     (case files ''gates/compose.cpp'' of
        None \<Rightarrow> (Inl OSError, files)
      | Some content_compose \<Rightarrow>
          (let files1 = files(''gates/compose_temp.cpp'' \<mapsto>
                           modified_content_compose threshold delay content_compose)
           in case files1 ''main.cpp'' of
                None \<Rightarrow> (Inl OSError, files1)
              | Some content_main \<Rightarrow>
                  (let files2 = files1(''main_temp.cpp'' \<mapsto>
                                   modified_content_main threshold delay content_main)
                   in case try_body sys files2 of
                        (r, files3) \<Rightarrow> (except_handler r, cleanup files3))))"

section \<open>The sweep and the selection of \<^verbatim>\<open>main\<close> (grid-search.py, lines 85 to 186)\<close>

text \<open>
  A result file is kept as the rows written to it: the threshold and the values that
  follow it, in the order written. The value printed by \<^verbatim>\<open>f"{accuracy:.1f}"\<close> and read
  back by \<^verbatim>\<open>float\<close> is \<open>fmt accuracy\<close>; the rounding depends on binary floating point
  and is a parameter. A gate the capture does not name gets the integer 0, printed
  \<^verbatim>\<open>0.0\<close>. The outcome of the external commands may differ from grid point to grid
  point: \<open>world threshold delay\<close> is the operating system met at that point.
\<close>

type_synonym row = "int \<times> rat list"

type_synonym result_files = "string \<Rightarrow> row list"

definition cell :: "(rat \<Rightarrow> rat) \<Rightarrow> gate_accuracies \<Rightarrow> string \<Rightarrow> rat" where
  "cell fmt gate_accs gate = (case map_of gate_accs gate of None \<Rightarrow> 0 | Some accuracy \<Rightarrow> fmt accuracy)"

text \<open>Lines 128 to 130: one more value on the row of every gate.\<close>

definition add_results :: "(rat \<Rightarrow> rat) \<Rightarrow> gate_accuracies \<Rightarrow> (string \<Rightarrow> rat list) \<Rightarrow> (string \<Rightarrow> rat list)" where
  "add_results fmt gate_accs rows =
     fold (\<lambda>gate rows. rows(gate := rows gate @ [cell fmt gate_accs gate])) GATE_NAMES rows"

text \<open>Lines 112 to 130: the loop over the delays; an exception of \<^verbatim>\<open>test_parameters\<close> ends it.\<close>

fun delay_loop ::
    "(rat \<Rightarrow> rat) \<Rightarrow> (int \<Rightarrow> int \<Rightarrow> os) \<Rightarrow> int \<Rightarrow> int list \<Rightarrow> (string \<Rightarrow> rat list) \<Rightarrow> fs
       \<Rightarrow> (py_error + (string \<Rightarrow> rat list)) \<times> fs" where
  "delay_loop fmt world threshold [] rows files = (Inr rows, files)"
| "delay_loop fmt world threshold (delay # delays) rows files =
     (case test_parameters threshold delay (world threshold delay) files of
        (Inl e, files') \<Rightarrow> (Inl e, files')
      | (Inr gate_accs, files') \<Rightarrow>
          delay_loop fmt world threshold delays (add_results fmt gate_accs rows) files')"

text \<open>Lines 133 to 135: the completed row of every gate is written and flushed.\<close>

definition write_rows :: "int \<Rightarrow> (string \<Rightarrow> rat list) \<Rightarrow> result_files \<Rightarrow> result_files" where
  "write_rows threshold rows rfiles =
     fold (\<lambda>gate rfiles. rfiles(gate := rfiles gate @ [(threshold, rows gate)])) GATE_NAMES rfiles"

text \<open>Lines 108 to 135: the loop over the thresholds. The rows written stay written when
  an exception ends the sweep.\<close>

fun threshold_loop ::
    "(rat \<Rightarrow> rat) \<Rightarrow> (int \<Rightarrow> int \<Rightarrow> os) \<Rightarrow> int list \<Rightarrow> result_files \<Rightarrow> fs
       \<Rightarrow> (py_error + unit) \<times> result_files \<times> fs" where
  "threshold_loop fmt world [] rfiles files = (Inr (), rfiles, files)"
| "threshold_loop fmt world (threshold # thresholds) rfiles files =
     (case delay_loop fmt world threshold DELAYS (\<lambda>gate. []) files of
        (Inl e, files') \<Rightarrow> (Inl e, rfiles, files')
      | (Inr rows, files') \<Rightarrow>
          threshold_loop fmt world thresholds (write_rows threshold rows rfiles) files')"

definition sweep :: "(rat \<Rightarrow> rat) \<Rightarrow> (int \<Rightarrow> int \<Rightarrow> os) \<Rightarrow> fs \<Rightarrow> (py_error + unit) \<times> result_files \<times> fs" where
  "sweep fmt world files = threshold_loop fmt world THRESHOLDS (\<lambda>gate. []) files"

subsection \<open>The selection (lines 146 to 174)\<close>

record best_config =
  best_threshold :: int
  best_delay :: int
  best_accuracy :: rat

text \<open>Lines 170 to 174: the scan of one row, \<open>i\<close> the position of the value in the row.\<close>

fun scan_row :: "int \<Rightarrow> nat \<Rightarrow> rat list \<Rightarrow> best_config \<Rightarrow> best_config" where
  "scan_row threshold i [] best = best"
| "scan_row threshold i (accuracy # accuracies) best =
     scan_row threshold (Suc i) accuracies
       (if i < length DELAYS \<and> accuracy > best_accuracy best
        then \<lparr>best_threshold = threshold, best_delay = DELAYS ! i, best_accuracy = accuracy\<rparr>
        else best)"

fun scan_rows :: "row list \<Rightarrow> best_config \<Rightarrow> best_config" where
  "scan_rows [] best = best"
| "scan_rows ((threshold, accuracies) # rows) best =
     scan_rows rows (scan_row threshold 0 accuracies best)"

definition select_best :: "row list \<Rightarrow> best_config" where
  "select_best rows = scan_rows rows \<lparr>best_threshold = 0, best_delay = 0, best_accuracy = 0\<rparr>"

text \<open>The values of a result file with their grid points, in the order of the scan.\<close>

definition row_cells :: "row \<Rightarrow> (int \<times> int \<times> rat) list" where
  "row_cells r = map (\<lambda>(delay, accuracy). (fst r, delay, accuracy)) (zip DELAYS (snd r))"

definition cells :: "row list \<Rightarrow> (int \<times> int \<times> rat) list" where
  "cells rows = concat (map row_cells rows)"

definition config_of :: "int \<times> int \<times> rat \<Rightarrow> best_config" where
  "config_of c = \<lparr>best_threshold = fst c, best_delay = fst (snd c), best_accuracy = snd (snd c)\<rparr>"

definition is_grid_point :: "int \<Rightarrow> int \<Rightarrow> bool" where
  "is_grid_point threshold delay \<longleftrightarrow> threshold \<in> set THRESHOLDS \<and> delay \<in> set DELAYS"

section \<open>\<^verbatim>\<open>create_optimized_binary\<close> (create-optimal-binaries.py, lines 28 to 100)\<close>









section \<open>Templates and a stub operating system for the examples\<close>

text \<open>
  Two small templates with one directive of each kind, and an operating system whose
  compiler, linker and simulator end as they are told: \<^verbatim>\<open>make clean\<close> succeeds, a
  successful \<^verbatim>\<open>g++\<close> writes the file named after \<^verbatim>\<open>-o\<close>, any other command is the
  simulator.
\<close>

definition template_compose :: string where
  "template_compose = ''#define THRESHOLD 200\<newline>#define DELAY 64\<newline>int compose();\<newline>''"

definition template_main :: string where
  \<open>template_main =
     ''#define THRESHOLD 200\<newline>#define DELAY 64\<newline>#include "gates/compose.cpp"\<newline>'' @
     ''test_gate("GATE_NAME_PLACEHOLDER", GATE_FUNCTION_PLACEHOLDER, GATE_INPUTS_PLACEHOLDER);\<newline>''\<close>

definition template_files :: fs where
  "template_files = [''gates/compose.cpp'' \<mapsto> template_compose, ''main.cpp'' \<mapsto> template_main]"

definition output_of :: "string list \<Rightarrow> string option" where
  "output_of argv = (case dropWhile (\<lambda>a. a \<noteq> ''-o'') argv of flag # p # rest \<Rightarrow> Some p | _ \<Rightarrow> None)"

definition stub_os :: "proc_result \<Rightarrow> proc_result \<Rightarrow> proc_result \<Rightarrow> os" where
  "stub_os compile link run argv files =
     (if argv = [''make'', ''clean''] then (Exited 0 [], files)
      else if take 1 argv = [''g++''] then
        (let r = (if ''-c'' \<in> set argv then compile else link)
         in (r, case (r, output_of argv) of
                  (Exited rc out, Some p) \<Rightarrow> if rc = 0 then files(p \<mapsto> ''binary'') else files
                | _ \<Rightarrow> files))
      else (run, files))"

text \<open>A world in which the simulator cannot be started at the grid point (100, 48).\<close>

definition failing_world :: "int \<Rightarrow> int \<Rightarrow> os" where
  "failing_world threshold delay =
     (if threshold = 100 \<and> delay = 48
      then stub_os (Exited 0 []) (Exited 0 []) Launch_Failed
      else stub_os (Exited 0 []) (Exited 0 [])
             (Exited 0 ''=== XOR gate ===\<newline>Correct rate: (avg, std) (87.3%, 2.1%)\<newline>''))"


section \<open>The runs of a sweep\<close>

text \<open>
  \<open>grid_runs world points files\<close> runs \<^verbatim>\<open>test_parameters\<close> at the grid points of the list, in
  order, each on the files the run before left, until one raises; every run is kept
  with its grid point and the mapping it returned. \<open>printed_accuracy\<close> is the value a
  run leaves in the result file of a gate: the accuracy of the gate as \<^verbatim>\<open>.1f\<close> prints it,
  and 0 when the mapping does not name the gate.
\<close>

type_synonym run = "(int \<times> int) \<times> gate_accuracies"

fun grid_runs :: "(int \<Rightarrow> int \<Rightarrow> os) \<Rightarrow> (int \<times> int) list \<Rightarrow> fs \<Rightarrow> (py_error + run list) \<times> fs" where
  "grid_runs world [] files = (Inr [], files)"
| "grid_runs world (point # points) files =
     (case test_parameters (fst point) (snd point) (world (fst point) (snd point)) files of
        (Inl e, files1) \<Rightarrow> (Inl e, files1)
      | (Inr gate_accs, files1) \<Rightarrow>
          (case grid_runs world points files1 of
             (Inl e, files2) \<Rightarrow> (Inl e, files2)
           | (Inr runs, files2) \<Rightarrow> (Inr ((point, gate_accs) # runs), files2)))"

definition printed_accuracy :: "(rat \<Rightarrow> rat) \<Rightarrow> string \<Rightarrow> run \<Rightarrow> rat" where
  "printed_accuracy fmt gate r =
     (case map_of (snd r) gate of None \<Rightarrow> 0 | Some accuracy \<Rightarrow> fmt accuracy)"

text \<open>
  A world in which every command succeeds and the simulator reports the XOR gate with
  an accuracy that depends on the delay; at threshold 125 it reports the AND gate only.
\<close>

definition grade :: "int \<Rightarrow> string" where
  "grade delay =
     (case map_of [(32, ''61.5''), (48, ''70.0''), (64, ''78.5''), (96, ''85.0''), (128, ''91.5''),
                   (192, ''96.0''), (256, ''99.5''), (512, ''88.0''), (1024, ''74.5'')] delay of
        Some text \<Rightarrow> text | None \<Rightarrow> ''0.0'')"

definition xor_report :: "string \<Rightarrow> string" where
  "xor_report text =
     ''=== XOR gate ===\<newline>Correct rate: (avg, std) ('' @ text @ ''%, 2.1%)\<newline>''"

definition graded_out :: "int \<Rightarrow> int \<Rightarrow> string" where
  "graded_out threshold delay =
     (if threshold = 125
      then ''=== AND gate ===\<newline>Correct rate: (avg, std) (50.0%, 0.0%)\<newline>''
      else xor_report (grade delay))"

definition graded_world :: "int \<Rightarrow> int \<Rightarrow> os" where
  "graded_world threshold delay =
     stub_os (Exited 0 []) (Exited 0 []) (Exited 0 (graded_out threshold delay))"

definition graded_accs :: "int \<Rightarrow> int \<Rightarrow> gate_accuracies" where
  "graded_accs threshold delay =
     (if threshold = 125 then [(''AND'', 50)]
      else [(''XOR'',
             case map_of [(32, 61.5), (48, 70), (64, 78.5), (96, 85), (128, 91.5),
                          (192, 96), (256, 99.5), (512, 88), (1024, 74.5)] delay of
               Some accuracy \<Rightarrow> accuracy | None \<Rightarrow> 0)])"

section \<open>The selector as one scan of the cells\<close>

text \<open>
  The two nested loops of the selector visit the cells of the matrix in row-major order;
  \<open>scan_cells\<close> is that scan over the list of cells. \<open>tie_rows\<close> is a matrix with the maximum 90
  at three cells, \<open>zero_rows\<close> the matrix of a sweep in which no gate ever answered.
\<close>

fun scan_cells :: "(int \<times> int \<times> rat) list \<Rightarrow> best_config \<Rightarrow> best_config" where
  "scan_cells [] best = best"
| "scan_cells (c # cs) best =
     scan_cells cs (if snd (snd c) > best_accuracy best then config_of c else best)"

definition zero_rows :: "row list" where
  "zero_rows = map (\<lambda>threshold. (threshold, replicate (length DELAYS) 0)) THRESHOLDS"

definition tie_rows :: "row list" where
  "tie_rows = [(100, [0, 50, 90, 10, 0, 0, 0, 0, 0]), (125, [90, 0, 0, 0, 20, 0, 0, 0, 90])]"

section \<open>The accuracy as the specification words it\<close>

text \<open>
  The specification reads the accuracy as the first decimal number that stands right
  before a percent sign: the leftmost match of \<^verbatim>\<open>[0-9.]+%\<close>, without the parenthesis the
  source asks for. This definition follows the specification, for comparison with
  \<open>extract_accuracy\<close>.
\<close>

definition percent_number_pattern :: "atom list" where
  "percent_number_pattern = [Rep1 DigitDot, Lit (CHR ''%'')]"

definition first_percent_number :: "string \<Rightarrow> py_error + rat" where
  "first_percent_number line =
     (case re_search percent_number_pattern line of
        None \<Rightarrow> Inl AttributeError
      | Some (i, n) \<Rightarrow> py_float (take (n - 1) (drop i line)))"

section \<open>Properties of the result parser\<close>

lemma py_index_of_first:
  "x \<notin> set pre \<Longrightarrow> py_index_of (pre @ x # post) x = Inr (length pre)"
  by (induction pre) auto

lemma py_getitem_nth:
  "i < length xs \<Longrightarrow> py_getitem xs (int i) = Inr (xs ! i)"
  by (simp add: py_getitem_def)

lemma py_getitem_minus_one:
  "xs \<noteq> [] \<Longrightarrow> py_getitem xs (- 1) = Inr (last xs)"
  by (cases xs rule: rev_cases) (auto simp: py_getitem_def nth_append)

lemma prev_line_head: "prev_line (l # rest) l = Inr (last (l # rest))"
  using py_getitem_minus_one [of "l # rest"] by (simp add: prev_line_def)

lemma prev_line_first_occurrence:
  assumes "x \<notin> set pre" "x \<noteq> y"
  shows "prev_line (pre @ y # x # post) x = Inr y"
proof -
  have "py_index_of ((pre @ [y]) @ x # post) x = Inr (length (pre @ [y]))"
    by (rule py_index_of_first) (use assms in auto)
  then have "py_index_of (pre @ y # x # post) x = Inr (Suc (length pre))" by simp
  moreover have "py_getitem (pre @ y # x # post) (int (length pre)) = Inr y"
    using py_getitem_nth [of "length pre" "pre @ y # x # post"] by simp
  ultimately show ?thesis by (simp add: prev_line_def)
qed

subsection \<open>What the regular expressions match\<close>

lemma re_search_Some_iff:
  "re_search p s = Some (i, n) \<longleftrightarrow>
     i \<le> length s \<and> match_len p (drop i s) = Some n \<and> (\<forall>j<i. match_len p (drop j s) = None)"
proof (induction s arbitrary: i)
  case Nil
  then show ?case by (auto split: option.splits)
next
  case (Cons c cs)
  show ?case
  proof (cases "match_len p (c # cs)")
    case (Some m)
    then show ?thesis
      by (cases i) auto
  next
    case None
    show ?thesis
    proof (cases i)
      case 0
      with None show ?thesis by simp
    next
      case (Suc i')
      have "(\<forall>j<Suc i'. match_len p (drop j (c # cs)) = None) \<longleftrightarrow>
            (\<forall>j<i'. match_len p (drop j cs) = None)"
        using None by (auto simp: less_Suc_eq_0_disj)
      with None Suc Cons.IH [of i'] show ?thesis by auto
    qed
  qed
qed

lemma re_search_None_iff:
  "re_search p s = None \<longleftrightarrow> (\<forall>j\<le>length s. match_len p (drop j s) = None)"
proof (induction s)
  case Nil
  then show ?case by (auto split: option.splits)
next
  case (Cons c cs)
  have "(\<forall>j\<le>length (c # cs). match_len p (drop j (c # cs)) = None) \<longleftrightarrow>
        match_len p (c # cs) = None \<and> (\<forall>j\<le>length cs. match_len p (drop j cs) = None)"
  proof
    assume a: "\<forall>j\<le>length (c # cs). match_len p (drop j (c # cs)) = None"
    have "match_len p (c # cs) = None" using a [rule_format, of 0] by simp
    moreover have "match_len p (drop j cs) = None" if "j \<le> length cs" for j
      using a [rule_format, of "Suc j"] that by simp
    ultimately show "match_len p (c # cs) = None \<and> (\<forall>j\<le>length cs. match_len p (drop j cs) = None)"
      by blast
  next
    assume a: "match_len p (c # cs) = None \<and> (\<forall>j\<le>length cs. match_len p (drop j cs) = None)"
    show "\<forall>j\<le>length (c # cs). match_len p (drop j (c # cs)) = None"
    proof (intro allI impI)
      fix j assume "j \<le> length (c # cs)"
      then show "match_len p (drop j (c # cs)) = None"
        using a by (cases j) auto
    qed
  qed
  with Cons show ?case by (auto split: option.splits)
qed

lemma match_len_single:
  "match_len [Lit c] ys = (if \<exists>r. ys = c # r then Some 1 else None)"
  by (cases ys) auto

lemma rep_back_lit:
  assumes "\<not> in_class k c"
  shows "n \<le> length (takeWhile (in_class k) xs) \<Longrightarrow>
         rep_back [Lit c] xs n =
           (if 0 < n \<and> n = length (takeWhile (in_class k) xs) \<and> (\<exists>r. dropWhile (in_class k) xs = c # r)
            then Some (Suc n) else None)"
proof (induction n)
  case 0
  then show ?case by simp
next
  case (Suc n)
  let ?tw = "takeWhile (in_class k) xs" and ?dw = "dropWhile (in_class k) xs"
  have xs: "xs = ?tw @ ?dw" by simp
  have IH: "rep_back [Lit c] xs n = None" using Suc by simp
  have step: "rep_back [Lit c] xs (Suc n) =
     (case match_len [Lit c] (drop (Suc n) xs) of Some m \<Rightarrow> Some (Suc n + m) | None \<Rightarrow> None)"
    using IH by (simp split: option.splits)
  show ?case
  proof (cases "Suc n = length ?tw")
    case True
    have "drop (Suc n) xs = ?dw"
      using True by (metis append_eq_conv_conj xs)
    moreover have "match_len [Lit c] ?dw = (if \<exists>r. ?dw = c # r then Some 1 else None)"
      by (rule match_len_single)
    ultimately have ml: "match_len [Lit c] (drop (Suc n) xs) = (if \<exists>r. ?dw = c # r then Some 1 else None)"
      by (simp only:)
    have ne: "?tw \<noteq> []" using True by auto
    show ?thesis
    proof (cases "\<exists>r. ?dw = c # r")
      case ex: True
      have "rep_back [Lit c] xs (Suc n) = Some (Suc (Suc n))"
        unfolding step ml using ex by simp
      then show ?thesis using ex True ne by simp
    next
      case nex: False
      have "rep_back [Lit c] xs (Suc n) = None"
        unfolding step ml using nex by simp
      then show ?thesis using nex by simp
    qed
  next
    case False
    with Suc.prems have lt: "Suc n < length ?tw" by simp
    have "drop (Suc n) xs = drop (Suc n) ?tw @ ?dw"
      using lt by (subst xs) (simp del: takeWhile_dropWhile_id)
    moreover have "drop (Suc n) ?tw \<noteq> []" using lt by simp
    moreover have "\<forall>x\<in>set (drop (Suc n) ?tw). in_class k x"
      by (meson in_set_dropD set_takeWhileD)
    ultimately have "match_len [Lit c] (drop (Suc n) xs) = None"
      using assms by (cases "drop (Suc n) ?tw") auto
    then show ?thesis unfolding step using False by simp
  qed
qed


lemma match_len_accuracy_pattern:
  "match_len accuracy_pattern s = Some n \<longleftrightarrow>
     (\<exists>r b. s = CHR ''('' # r @ CHR ''%'' # b \<and> r \<noteq> [] \<and>
        (\<forall>c\<in>set r. is_digit c \<or> c = CHR ''.'') \<and> n = length r + 2)"
proof -
  have nc: "\<not> in_class DigitDot (CHR ''%'')" by (simp add: is_digit_def)
  show ?thesis
  proof (cases s)
    case Nil
    then show ?thesis by (simp add: accuracy_pattern_def)
  next
    case (Cons x xs)
    let ?tw = "takeWhile (in_class DigitDot) xs" and ?dw = "dropWhile (in_class DigitDot) xs"
    have m: "match_len accuracy_pattern s =
       (if x = CHR ''('' \<and> ?tw \<noteq> [] \<and> (\<exists>r. ?dw = CHR ''%'' # r)
        then Some (length ?tw + 2) else None)"
      using rep_back_lit [OF nc, of "length ?tw" xs] Cons by (simp add: accuracy_pattern_def)
    show ?thesis
    proof
      assume "match_len accuracy_pattern s = Some n"
      with m obtain b where *: "x = CHR ''(''" "?tw \<noteq> []" "?dw = CHR ''%'' # b" "n = length ?tw + 2"
        by (auto split: if_splits)
      have "xs = ?tw @ CHR ''%'' # b" using *(3) by (metis takeWhile_dropWhile_id)
      moreover have "\<forall>c\<in>set ?tw. is_digit c \<or> c = CHR ''.''"
        using set_takeWhileD [of _ "in_class DigitDot" xs] by auto
      ultimately show "\<exists>r b. s = CHR ''('' # r @ CHR ''%'' # b \<and> r \<noteq> [] \<and>
        (\<forall>c\<in>set r. is_digit c \<or> c = CHR ''.'') \<and> n = length r + 2"
        using * Cons by blast
    next
      assume "\<exists>r b. s = CHR ''('' # r @ CHR ''%'' # b \<and> r \<noteq> [] \<and>
        (\<forall>c\<in>set r. is_digit c \<or> c = CHR ''.'') \<and> n = length r + 2"
      then obtain r b where *: "s = CHR ''('' # r @ CHR ''%'' # b" "r \<noteq> []"
        "\<forall>c\<in>set r. is_digit c \<or> c = CHR ''.''" "n = length r + 2" by blast
      have xs: "xs = r @ CHR ''%'' # b" and x: "x = CHR ''(''" using * Cons by auto
      have inr: "\<And>c. c \<in> set r \<Longrightarrow> in_class DigitDot c" using *(3) by simp
      have "?tw = r" unfolding xs using inr nc by (simp add: takeWhile_append2)
      moreover have "?dw = CHR ''%'' # b" unfolding xs using inr nc by (simp add: dropWhile_append2)
      ultimately show "match_len accuracy_pattern s = Some n"
        using m * x by simp
    qed
  qed
qed

text \<open>
  C9. When the first line of the capture holds the marker, \<^verbatim>\<open>index\<close> gives 0 and the
  parser looks back at index \<open>-1\<close>, the last line of the capture: a gate header on the
  last line is associated with the marker on the first line.
\<close>

theorem first_line_lookback_wraps:
  assumes "sublist marker l"
  shows "prev_line (l # rest) l = Inr (last (l # rest)) \<and>
         parse_step (l # rest) l acc =
           (case find_gate (last (l # rest)) of
              None \<Rightarrow> Inr acc
            | Some gate \<Rightarrow>
                (case extract_accuracy l of
                   Inl e \<Rightarrow> Inl e
                 | Inr accuracy \<Rightarrow> Inr (AList.update gate accuracy acc)))"
  using assms prev_line_head [of l rest] by (simp add: parse_step_def)

theorem first_line_lookback_wraps_witness:
  "sublist marker ''Correct rate: (avg, std) (100.0%, 0.0%)'' \<and>
   prev_line [''Correct rate: (avg, std) (100.0%, 0.0%)'', ''=== OR gate ==='']
       ''Correct rate: (avg, std) (100.0%, 0.0%)''
     = Inr ''=== OR gate ==='' \<and>
   parse_step [''Correct rate: (avg, std) (100.0%, 0.0%)'', ''=== OR gate ==='']
       ''Correct rate: (avg, std) (100.0%, 0.0%)'' []
     = Inr [(''OR'', 100)]"
proof -
  have h: "sublist marker ''Correct rate: (avg, std) (100.0%, 0.0%)''" by code_simp
  have g: "find_gate ''=== OR gate ==='' = Some ''OR''" by code_simp
  have a: "extract_accuracy ''Correct rate: (avg, std) (100.0%, 0.0%)'' = Inr 100" by code_simp
  show ?thesis
    using h first_line_lookback_wraps [OF h, of "[''=== OR gate ==='']" "[]"] by (simp add: g a)
qed

text \<open>
  C3. The parser is to look at the line just before each marker line. The source finds
  that line through \<^verbatim>\<open>index(line)\<close>, the first line with the same text: when two gates
  report the same rate, the second marker is looked up before the first one, the first
  gate is recorded again and the second gate gets no entry.
\<close>

theorem duplicate_marker_lines:
  "prev_line [''=== AND gate ==='', ''Correct rate: (avg, std) (100.0%, 0.0%)'',
              ''=== OR gate ==='', ''Correct rate: (avg, std) (100.0%, 0.0%)'']
     ([''=== AND gate ==='', ''Correct rate: (avg, std) (100.0%, 0.0%)'',
       ''=== OR gate ==='', ''Correct rate: (avg, std) (100.0%, 0.0%)''] ! 3)
     = Inr ''=== AND gate ==='' \<and>
   parse_lines [''=== AND gate ==='', ''Correct rate: (avg, std) (100.0%, 0.0%)'',
                ''=== OR gate ==='', ''Correct rate: (avg, std) (100.0%, 0.0%)'']
     = Inr [(''AND'', 100)]"
  by code_simp

lemma no_percent_no_fragment:
  assumes np: "CHR ''%'' \<notin> set pre"
    and eq: "pre @ CHR ''('' # run @ CHR ''%'' # post = a @ CHR ''('' # r @ CHR ''%'' # b"
    and r: "\<forall>c\<in>set r. is_digit c \<or> c = CHR ''.''"
  shows "length pre \<le> length a"
proof (rule ccontr)
  assume "\<not> length pre \<le> length a"
  then have lt: "length a < length pre" by simp
  define us where "us = drop (length a) pre"
  have "take (length a) (pre @ CHR ''('' # run @ CHR ''%'' # post) = take (length a) pre"
    using lt by simp
  moreover have "take (length a) (a @ CHR ''('' # r @ CHR ''%'' # b) = a" by simp
  ultimately have "take (length a) pre = a" using eq by (simp only:)
  then have pre: "pre = a @ us" unfolding us_def by (metis append_take_drop_id)
  have usne: "us \<noteq> []" using lt unfolding us_def by simp
  have eq2: "us @ CHR ''('' # run @ CHR ''%'' # post = CHR ''('' # r @ CHR ''%'' # b"
    using eq unfolding pre by simp
  obtain us' where us: "us = CHR ''('' # us'"
    using usne eq2 by (cases us) auto
  have eq3: "us' @ CHR ''('' # run @ CHR ''%'' # post = r @ CHR ''%'' # b"
    using eq2 unfolding us by simp
  have np': "CHR ''%'' \<notin> set us'" using np unfolding pre us by simp
  have nth_eq: "(us' @ CHR ''('' # run @ CHR ''%'' # post) ! k = (r @ CHR ''%'' # b) ! k" for k
    by (rule arg_cong [where f = "\<lambda>xs. xs ! k", OF eq3])
  consider "length r < length us'" | "length r = length us'" | "length us' < length r"
    by linarith
  then show False
  proof cases
    case 1
    have "us' ! length r = CHR ''%''"
      using nth_eq [of "length r"] 1 by (simp add: nth_append)
    moreover have "us' ! length r \<in> set us'" using 1 by (rule nth_mem)
    ultimately show False using np' by simp
  next
    case 2
    have "CHR ''('' = CHR ''%''"
      using nth_eq [of "length r"] 2 by (simp add: nth_append)
    then show False by simp
  next
    case 3
    have "r ! length us' = CHR ''(''"
      using nth_eq [of "length us'"] 3 by (simp add: nth_append)
    moreover have "r ! length us' \<in> set r" using 3 by (rule nth_mem)
    ultimately have "CHR ''('' \<in> set r" by simp
    moreover have "\<not> is_digit (CHR ''('')" by (simp add: is_digit_def)
    moreover have "CHR ''('' \<noteq> CHR ''.''" by simp
    ultimately show False using r by blast
  qed
qed

text \<open>
  C5. From a marker line associated with a gate the parser takes the leftmost run of
  digits and points that stands between an opening parenthesis and a percent sign, and
  records its decimal value as it is. A number before a percent sign that no parenthesis
  opens is passed over, and a value with more decimals is kept with all of them, so the
  claim as worded fails; the XOR capture of the claim gives 87.3.
\<close>

theorem accuracy_is_parenthesised_percent_number:
  assumes line: "line = pre @ CHR ''('' # run @ CHR ''%'' # post"
    and ne: "run \<noteq> []"
    and run: "\<forall>c\<in>set run. is_digit c \<or> c = CHR ''.''"
    and first: "\<forall>a r b. line = a @ CHR ''('' # r @ CHR ''%'' # b \<and> r \<noteq> [] \<and>
                 (\<forall>c\<in>set r. is_digit c \<or> c = CHR ''.'') \<longrightarrow> length pre \<le> length a"
  shows "extract_accuracy line = py_float run"
proof -
  have d: "drop (length pre) line = CHR ''('' # run @ CHR ''%'' # post"
    using line by simp
  have m: "match_len accuracy_pattern (drop (length pre) line) = Some (length run + 2)"
    unfolding match_len_accuracy_pattern d using ne run by blast
  have before: "match_len accuracy_pattern (drop j line) = None" if "j < length pre" for j
  proof (rule ccontr)
    assume "match_len accuracy_pattern (drop j line) \<noteq> None"
    then obtain n where "match_len accuracy_pattern (drop j line) = Some n" by blast
    then obtain r b where rb: "drop j line = CHR ''('' # r @ CHR ''%'' # b" "r \<noteq> []"
      "\<forall>c\<in>set r. is_digit c \<or> c = CHR ''.''"
      unfolding match_len_accuracy_pattern by blast
    have "line = take j line @ CHR ''('' # r @ CHR ''%'' # b"
      using rb(1) by (metis append_take_drop_id)
    with first rb have "length pre \<le> length (take j line)" by blast
    with that show False by simp
  qed
  have "re_search accuracy_pattern line = Some (length pre, length run + 2)"
    unfolding re_search_Some_iff using m before line by simp
  then show ?thesis
    using line by (simp add: extract_accuracy_def)
qed

theorem accuracy_is_parenthesised_percent_number_witness:
  "extract_accuracy ''Correct rate: (avg, std) (87.3%, 2.1%)'' = py_float ''87.3'' \<and>
   py_float ''87.3'' = Inr 87.3 \<and>
   parse_stdout ''=== XOR gate ===\<newline>Correct rate: (avg, std) (87.3%, 2.1%)\<newline>''
     = Inr [(''XOR'', 87.3)]"
proof -
  have l: "''Correct rate: (avg, std) (87.3%, 2.1%)'' =
           ''Correct rate: (avg, std) '' @ CHR ''('' # ''87.3'' @ CHR ''%'' # '', 2.1%)''"
    by simp
  have np: "CHR ''%'' \<notin> set ''Correct rate: (avg, std) ''" by simp
  have first: "\<forall>a r b. ''Correct rate: (avg, std) (87.3%, 2.1%)'' = a @ CHR ''('' # r @ CHR ''%'' # b \<and> r \<noteq> [] \<and>
                 (\<forall>c\<in>set r. is_digit c \<or> c = CHR ''.'') \<longrightarrow> length ''Correct rate: (avg, std) '' \<le> length a"
    using no_percent_no_fragment [OF np, of "''87.3''" "'', 2.1%)''"] unfolding l [symmetric] by blast
  have run: "\<forall>c\<in>set ''87.3''. is_digit c \<or> c = CHR ''.''" by (simp add: is_digit_def)
  have "extract_accuracy ''Correct rate: (avg, std) (87.3%, 2.1%)'' = py_float ''87.3''"
    by (rule accuracy_is_parenthesised_percent_number [OF l _ run first]) simp
  moreover have "py_float ''87.3'' = Inr 87.3" by code_simp
  moreover have "parse_stdout ''=== XOR gate ===\<newline>Correct rate: (avg, std) (87.3%, 2.1%)\<newline>''
     = Inr [(''XOR'', 87.3)]" by code_simp
  ultimately show ?thesis by blast
qed

theorem first_percent_number_counterexample:
  "first_percent_number ''Correct rate: (avg, std) 12.5% (87.3%, 2.1%)'' = Inr 12.5 \<and>
   extract_accuracy ''Correct rate: (avg, std) 12.5% (87.3%, 2.1%)'' = Inr 87.3 \<and>
   parse_lines [''=== XOR gate ==='', ''Correct rate: (avg, std) 12.5% (87.3%, 2.1%)'']
     = Inr [(''XOR'', 87.3)] \<and>
   parse_lines [''=== XOR gate ==='', ''Correct rate: (avg, std) (87.35%, 2.1%)'']
     = Inr [(''XOR'', 87.35)]"
  by code_simp

section \<open>Exceptions of the parser and the handler of \<^verbatim>\<open>test_parameters\<close>\<close>

lemma parse_step_error:
  "parse_step lines l acc = Inl e \<Longrightarrow> e \<noteq> CalledProcessError"
proof -
  have i: "py_index_of xs x = Inl e' \<Longrightarrow> e' = ValueError" for xs :: "string list" and x e'
    by (induction xs arbitrary: e') (auto split: if_splits sum.splits)
  have g: "py_getitem xs k = Inl e' \<Longrightarrow> e' = IndexError" for xs :: "string list" and k e'
    by (auto simp: py_getitem_def split: if_splits)
  have p: "prev_line lines l = Inl e' \<Longrightarrow> e' \<noteq> CalledProcessError" for e'
    using i g by (fastforce simp: prev_line_def split: sum.splits)
  have f: "py_float s = Inl e' \<Longrightarrow> e' = ValueError" for s e'
    by (auto simp: py_float_def Let_def split: list.splits if_splits)
  have x: "extract_accuracy l = Inl e' \<Longrightarrow> e' \<noteq> CalledProcessError" for e'
    using f by (fastforce simp: extract_accuracy_def split: option.splits prod.splits)
  assume "parse_step lines l acc = Inl e"
  then show ?thesis
    using p x by (auto simp: parse_step_def split: if_splits sum.splits option.splits)
qed

lemma parse_loop_error:
  "parse_loop lines todo acc = Inl e \<Longrightarrow> e \<noteq> CalledProcessError"
  by (induction todo arbitrary: acc) (auto split: sum.splits dest: parse_step_error)

lemma parse_loop_raises:
  "(\<And>acc. \<exists>e. parse_step lines l acc = Inl e) \<Longrightarrow>
   \<exists>e. parse_loop lines (xs @ l # ys) acc = Inl e"
proof (induction xs arbitrary: acc)
  case Nil
  from Nil [of acc] show ?case by auto
next
  case (Cons x xs)
  show ?case
  proof (cases "parse_step lines x acc")
    case (Inl e)
    then show ?thesis by simp
  next
    case (Inr acc')
    with Cons.IH [OF Cons.prems, of acc'] show ?thesis by simp
  qed
qed

lemma run_checked_ok:
  "fst (sys argv files) = Exited 0 out \<Longrightarrow> run_checked sys argv files = (Inr out, snd (sys argv files))"
  by (cases "sys argv files") (simp add: run_checked_def)

lemma run_unchecked_exited:
  "fst (sys argv files) = Exited rc out \<Longrightarrow> run_unchecked sys argv files = (Inr out, snd (sys argv files))"
  by (cases "sys argv files") (simp add: run_unchecked_def)

lemma try_body_success:
  assumes ok: "\<And>argv fs. \<exists>out. fst (sys argv fs) = Exited 0 out"
    and run: "\<And>fs. fst (sys [''./main_temp.elf'', ''-t'', py_str AMT_TRIALS] fs) = Exited 0 out"
  shows "fst (try_body sys files) = parse_stdout out"
proof -
  let ?a1 = "[''make'', ''clean'']"
  let ?a2 = "[''g++'', ''-O2'', ''-D'', ''INTEL'', ''-c'', ''-o'', ''build/compose.o'', ''gates/compose.cpp'']"
  let ?a3 = "[''g++'', ''-O2'', ''-D'', ''INTEL'', ''-o'', ''main_temp.elf'', ''main_temp.cpp'',
              ''build/compose.o'', ''-lm'']"
  let ?a4 = "[''./main_temp.elf'', ''-t'', py_str AMT_TRIALS]"
  define f1 where "f1 = snd (sys ?a1 files)"
  define f2 where "f2 = snd (sys ?a2 f1)"
  define f3 where "f3 = snd (sys ?a3 f2)"
  obtain o1 where "fst (sys ?a1 files) = Exited 0 o1" using ok by blast
  then have r1: "run_checked sys ?a1 files = (Inr o1, f1)"
    unfolding f1_def by (rule run_checked_ok)
  obtain o2 where "fst (sys ?a2 f1) = Exited 0 o2" using ok by blast
  then have r2: "run_checked sys ?a2 f1 = (Inr o2, f2)"
    unfolding f2_def by (rule run_checked_ok)
  obtain o3 where "fst (sys ?a3 f2) = Exited 0 o3" using ok by blast
  then have r3: "run_checked sys ?a3 f2 = (Inr o3, f3)"
    unfolding f3_def by (rule run_checked_ok)
  have r4: "run_unchecked sys ?a4 f3 = (Inr out, snd (sys ?a4 f3))"
    using run [of f3] by (rule run_unchecked_exited)
  show ?thesis
    unfolding try_body_def by (simp only: r1 r2 r3 r4 prod.case sum.case fst_conv)
qed

lemma test_parameters_result:
  assumes "files ''gates/compose.cpp'' = Some c" and "files ''main.cpp'' = Some m"
  shows "test_parameters threshold delay sys files =
           (let r = try_body sys
                      (files(''gates/compose_temp.cpp'' \<mapsto> modified_content_compose threshold delay c,
                             ''main_temp.cpp'' \<mapsto> modified_content_main threshold delay m))
            in (except_handler (fst r), cleanup (snd r)))"
  using assms by (simp add: test_parameters_def Let_def split: prod.splits)

lemma except_handler_other:
  "e \<noteq> CalledProcessError \<Longrightarrow> except_handler (Inl e) = Inl e"
  by (cases e) (simp_all add: except_handler_def)

lemma no_percent_no_number:
  assumes "CHR ''%'' \<notin> set s"
  shows "\<not> (\<exists>a r b. s = a @ CHR ''('' # r @ CHR ''%'' # b \<and> P r)"
proof
  assume "\<exists>a r b. s = a @ CHR ''('' # r @ CHR ''%'' # b \<and> P r"
  then obtain a r b where "s = a @ CHR ''('' # r @ CHR ''%'' # b" by blast
  then have "set s = set (a @ CHR ''('' # r @ CHR ''%'' # b)" by (rule arg_cong)
  then have "CHR ''%'' \<in> set s" by simp
  with assms show False by blast
qed

text \<open>
  C10. When the build succeeds and the simulator prints a capture in which a marker
  line stands right after a gate header, is not the text of an earlier line and holds
  no \<^verbatim>\<open>(<number>%\<close>, the search returns nothing, \<^verbatim>\<open>.group\<close> raises, and the handler,
  which catches the error of a failed command only, lets the exception through:
  \<^verbatim>\<open>test_parameters\<close> returns no mapping.
\<close>

theorem marker_without_number_raises:
  assumes compose: "files ''gates/compose.cpp'' = Some c"
    and main: "files ''main.cpp'' = Some m"
    and ok: "\<And>argv fs. \<exists>out. fst (sys argv fs) = Exited 0 out"
    and run: "\<And>fs. fst (sys [''./main_temp.elf'', ''-t'', py_str AMT_TRIALS] fs) = Exited 0 out"
    and lines: "splitlines out = pre @ hdr # ml # post"
    and mk: "sublist marker ml"
    and fresh: "ml \<notin> set pre" "ml \<noteq> hdr"
    and gate: "find_gate hdr = Some g"
    and nofrag: "\<not> (\<exists>a r b. ml = a @ CHR ''('' # r @ CHR ''%'' # b \<and> r \<noteq> [] \<and>
                   (\<forall>c\<in>set r. is_digit c \<or> c = CHR ''.''))"
  shows "\<exists>e. fst (test_parameters threshold delay sys files) = Inl e \<and> e \<noteq> CalledProcessError"
proof -
  let ?lines = "pre @ hdr # ml # post"
  have prev: "prev_line ?lines ml = Inr hdr"
    using fresh by (rule prev_line_first_occurrence)
  have "match_len accuracy_pattern (drop j ml) = None" for j
  proof (rule ccontr)
    assume "match_len accuracy_pattern (drop j ml) \<noteq> None"
    then obtain n where "match_len accuracy_pattern (drop j ml) = Some n" by blast
    then obtain r b where rb: "drop j ml = CHR ''('' # r @ CHR ''%'' # b" "r \<noteq> []"
      "\<forall>c\<in>set r. is_digit c \<or> c = CHR ''.''"
      unfolding match_len_accuracy_pattern by blast
    have "ml = take j ml @ CHR ''('' # r @ CHR ''%'' # b"
      using rb(1) by (metis append_take_drop_id)
    with nofrag rb show False by blast
  qed
  then have "re_search accuracy_pattern ml = None"
    unfolding re_search_None_iff by blast
  then have ex: "extract_accuracy ml = Inl AttributeError"
    by (simp add: extract_accuracy_def)
  have step: "parse_step ?lines ml acc = Inl AttributeError" for acc
    using mk prev gate ex by (simp add: parse_step_def)
  have "\<exists>e. parse_loop ?lines ((pre @ [hdr]) @ ml # post) [] = Inl e"
    by (rule parse_loop_raises) (use step in blast)
  then obtain e where e: "parse_lines ?lines = Inl e"
    by (auto simp: parse_lines_def)
  then have ne: "e \<noteq> CalledProcessError"
    unfolding parse_lines_def by (rule parse_loop_error)
  have "fst (try_body sys files2) = Inl e" for files2
    using try_body_success [of sys out files2] ok run lines e by (simp add: parse_stdout_def)
  moreover note test_parameters_result [OF compose main, of threshold delay sys]
  ultimately have "fst (test_parameters threshold delay sys files) = except_handler (Inl e)"
    by (simp add: Let_def)
  with ne show ?thesis by (simp add: except_handler_other)
qed

theorem marker_without_number_raises_witness:
  "\<exists>e. fst (test_parameters 100 32
             (stub_os (Exited 0 []) (Exited 0 [])
                (Exited 0 ''=== XOR gate ===\<newline>Correct rate: (avg, std) n/a\<newline>''))
             template_files) = Inl e \<and> e \<noteq> CalledProcessError"
proof -
  let ?out = "''=== XOR gate ===\<newline>Correct rate: (avg, std) n/a\<newline>''"
  let ?sys = "stub_os (Exited 0 []) (Exited 0 []) (Exited 0 ?out)"
  have c: "template_files ''gates/compose.cpp'' = Some template_compose"
    by (simp add: template_files_def)
  have m: "template_files ''main.cpp'' = Some template_main"
    by (simp add: template_files_def)
  have ok: "\<And>argv fs. \<exists>out. fst (?sys argv fs) = Exited 0 out"
    by (simp add: stub_os_def Let_def)
  have run: "\<And>fs. fst (?sys [''./main_temp.elf'', ''-t'', py_str AMT_TRIALS] fs) = Exited 0 ?out"
    by (simp add: stub_os_def)
  have lines: "splitlines ?out = [] @ ''=== XOR gate ==='' # ''Correct rate: (avg, std) n/a'' # []"
    by code_simp
  have mk: "sublist marker ''Correct rate: (avg, std) n/a''" by code_simp
  have gate: "find_gate ''=== XOR gate ==='' = Some ''XOR''" by code_simp
  have nofrag: "\<not> (\<exists>a r b. ''Correct rate: (avg, std) n/a'' = a @ CHR ''('' # r @ CHR ''%'' # b \<and>
                   r \<noteq> [] \<and> (\<forall>c\<in>set r. is_digit c \<or> c = CHR ''.''))"
    by (rule no_percent_no_number) simp
  show ?thesis
    by (rule marker_without_number_raises
          [where files = template_files and sys = ?sys and out = ?out and pre = "[]"
             and hdr = "''=== XOR gate ===''" and ml = "''Correct rate: (avg, std) n/a''"
             and post = "[]",
           OF c m ok run lines mk _ _ gate nofrag]) simp_all
qed

section \<open>Failures of the run\<close>

text \<open>
  C2. A failed run is to give an empty capture and raise nothing. The run of
  \<^verbatim>\<open>./main_temp.elf\<close> is the one command started without \<^verbatim>\<open>check=True\<close>: its exit status
  is never looked at, so the output of a simulator that exits with status 1 is parsed
  like any other, and a simulator that cannot be started raises an \<^verbatim>\<open>OSError\<close>, which
  the handler for \<^verbatim>\<open>CalledProcessError\<close> does not catch.
\<close>

theorem run_failure_not_contained:
  "fst (test_parameters 100 32
          (stub_os (Exited 0 []) (Exited 0 [])
             (Exited 1 ''=== XOR gate ===\<newline>Correct rate: (avg, std) (87.3%, 2.1%)\<newline>''))
          template_files) = Inr [(''XOR'', 87.3)] \<and>
   fst (test_parameters 100 32
          (stub_os (Exited 0 []) (Exited 0 []) Launch_Failed) template_files) = Inl OSError"
  by code_simp

text \<open>
  C4. A failed run at one grid point is to leave 0.0 for every gate and let the sweep go
  on. When the simulator cannot be started at the second grid point, the exception leaves
  \<^verbatim>\<open>test_parameters\<close> and \<^verbatim>\<open>main\<close>: the sweep ends there and no row is written.
\<close>

theorem sweep_aborts_on_launch_failure:
  "fst (sweep (\<lambda>a. a) failing_world template_files) = Inl OSError \<and>
   map (fst (snd (sweep (\<lambda>a. a) failing_world template_files))) GATE_NAMES = [[], [], [], [], [], [], []]"
  by code_simp

section \<open>Temporary files\<close>










section \<open>The sweep\<close>

lemma THRESHOLDS_list: "THRESHOLDS = [100, 125, 150, 175, 200, 225, 250, 275, 300]"
  by (simp add: THRESHOLDS_def py_range.simps)

lemma THRESHOLDS_set:
  "set THRESHOLDS = {t. 100 \<le> t \<and> t \<le> 300 \<and> (t - 100) mod 25 = 0}"
proof -
  have "t \<in> set THRESHOLDS \<longleftrightarrow> 100 \<le> t \<and> t \<le> 300 \<and> (t - 100) mod 25 = 0" for t :: int
    unfolding THRESHOLDS_list by (simp, presburger)
  then show ?thesis by (intro set_eqI) (simp only: mem_Collect_eq)
qed

lemma fold_append_entry:
  "distinct gs \<Longrightarrow>
   fold (\<lambda>gate rows. rows(gate := rows gate @ [f gate])) gs rows g =
     (if g \<in> set gs then rows g @ [f g] else rows g)"
  by (induction gs arbitrary: rows) auto

lemma distinct_GATE_NAMES: "distinct GATE_NAMES"
  by (simp add: GATE_NAMES_def)

lemma add_results_gate:
  "gate \<in> set GATE_NAMES \<Longrightarrow>
   add_results fmt gate_accs rows gate = rows gate @ [cell fmt gate_accs gate]"
  unfolding add_results_def
  by (simp add: fold_append_entry [OF distinct_GATE_NAMES])

lemma write_rows_gate:
  "gate \<in> set GATE_NAMES \<Longrightarrow>
   write_rows threshold rows rfiles gate = rfiles gate @ [(threshold, rows gate)]"
  unfolding write_rows_def
  using fold_append_entry [OF distinct_GATE_NAMES, of "\<lambda>gate. (threshold, rows gate)" rfiles gate]
  by simp

lemma delay_loop_completes:
  assumes step: "\<And>t d fs. good fs \<Longrightarrow>
                   \<exists>ga fs'. test_parameters t d (world t d) fs = (Inr ga, fs') \<and> good fs'"
  shows "good files \<Longrightarrow>
         \<exists>rows' files'. delay_loop fmt world threshold delays rows files = (Inr rows', files') \<and> good files'"
proof (induction delays arbitrary: rows files)
  case Nil
  then show ?case by simp
next
  case (Cons d ds)
  from step [OF Cons.prems, of threshold d] obtain ga f1 where
    tp: "test_parameters threshold d (world threshold d) files = (Inr ga, f1)" and "good f1"
    by blast
  from Cons.IH [OF \<open>good f1\<close>, of "add_results fmt ga rows"] tp show ?case by simp
qed

lemma threshold_loop_completes:
  assumes step: "\<And>t d fs. good fs \<Longrightarrow>
                   \<exists>ga fs'. test_parameters t d (world t d) fs = (Inr ga, fs') \<and> good fs'"
  shows "good files \<Longrightarrow>
         \<exists>rfiles' files'. threshold_loop fmt world thresholds rfiles files = (Inr (), rfiles', files')"
proof (induction thresholds arbitrary: rfiles files)
  case Nil
  then show ?case by simp
next
  case (Cons t ts)
  from delay_loop_completes [of good world, OF step Cons.prems, of fmt t DELAYS "\<lambda>gate. []"]
  obtain rows f1 where
    dl: "delay_loop fmt world t DELAYS (\<lambda>gate. []) files = (Inr rows, f1)" and "good f1"
    by blast
  from Cons.IH [OF \<open>good f1\<close>, of "write_rows t rows rfiles"] dl show ?case by simp
qed

lemma cleanup_other:
  "p \<noteq> ''main_temp.cpp'' \<Longrightarrow> p \<noteq> ''main_temp.elf'' \<Longrightarrow> p \<noteq> ''gates/compose_temp.cpp'' \<Longrightarrow>
   cleanup files p = files p"
  by (simp add: cleanup_def remove_if_exists_def)

lemma stub_os_files:
  "p \<noteq> ''build/compose.o'' \<Longrightarrow> p \<noteq> ''main_temp.elf'' \<Longrightarrow>
   snd (try_body (stub_os a b c) files) p = files p"
proof -
  assume p: "p \<noteq> ''build/compose.o''" "p \<noteq> ''main_temp.elf''"
  have s1: "stub_os a b c [''make'', ''clean''] f = (Exited 0 [], f)" for f
    by (simp add: stub_os_def)
  have s2: "snd (stub_os a b c [''g++'', ''-O2'', ''-D'', ''INTEL'', ''-c'', ''-o'', ''build/compose.o'', ''gates/compose.cpp''] f) p = f p" for f
    using p by (cases a) (simp_all add: stub_os_def output_of_def Let_def)
  have s3: "snd (stub_os a b c [''g++'', ''-O2'', ''-D'', ''INTEL'', ''-o'', ''main_temp.elf'', ''main_temp.cpp'',
              ''build/compose.o'', ''-lm''] f) p = f p" for f
    using p by (cases b) (simp_all add: stub_os_def output_of_def Let_def)
  have s4: "snd (stub_os a b c [''./main_temp.elf'', ''-t'', py_str AMT_TRIALS] f) = f" for f
    by (simp add: stub_os_def)
  have rc: "snd (run_checked sys argv f) = snd (sys argv f)" for sys argv f
    by (simp add: run_checked_def split: prod.splits proc_result.splits)
  have ru: "snd (run_unchecked sys argv f) = snd (sys argv f)" for sys argv f
    by (simp add: run_unchecked_def split: prod.splits proc_result.splits)
  let ?sys = "stub_os a b c"
  let ?a1 = "[''make'', ''clean'']"
  let ?a2 = "[''g++'', ''-O2'', ''-D'', ''INTEL'', ''-c'', ''-o'', ''build/compose.o'', ''gates/compose.cpp'']"
  let ?a3 = "[''g++'', ''-O2'', ''-D'', ''INTEL'', ''-o'', ''main_temp.elf'', ''main_temp.cpp'',
              ''build/compose.o'', ''-lm'']"
  let ?a4 = "[''./main_temp.elf'', ''-t'', py_str AMT_TRIALS]"
  define f1 where "f1 = snd (run_checked ?sys ?a1 files)"
  define f2 where "f2 = snd (run_checked ?sys ?a2 f1)"
  define f3 where "f3 = snd (run_checked ?sys ?a3 f2)"
  define f4 where "f4 = snd (run_unchecked ?sys ?a4 f3)"
  have e1: "f1 p = files p" unfolding f1_def rc s1 by simp
  have e2: "f2 p = files p" unfolding f2_def rc s2 using e1 .
  have e3: "f3 p = files p" unfolding f3_def rc s3 using e2 .
  have e4: "f4 p = files p" unfolding f4_def ru s4 using e3 .
  have "snd (try_body ?sys files) \<in> {f1, f2, f3, f4}"
    unfolding try_body_def f1_def f2_def f3_def f4_def
    by (simp split: prod.splits sum.splits)
  with e1 e2 e3 e4 show ?thesis by auto
qed

subsection \<open>The rows and the runs\<close>

lemma grid_runs_points:
  "grid_runs world points files = (Inr runs, files') \<Longrightarrow> map fst runs = points"
  by (induction points arbitrary: runs files) (auto split: prod.splits sum.splits)

lemma grid_runs_append:
  "grid_runs world ps files = (Inr r1, f1) \<Longrightarrow> grid_runs world qs f1 = (Inr r2, f2) \<Longrightarrow>
   grid_runs world (ps @ qs) files = (Inr (r1 @ r2), f2)"
  by (induction ps arbitrary: r1 files) (auto split: prod.splits sum.splits)

lemma cell_printed: "cell fmt gate_accs gate = printed_accuracy fmt gate (point, gate_accs)"
  by (simp add: cell_def printed_accuracy_def)

lemma delay_loop_runs:
  assumes "gate \<in> set GATE_NAMES"
  shows "delay_loop fmt world threshold delays rows files = (Inr rows', files') \<Longrightarrow>
         \<exists>runs. grid_runs world (map (Pair threshold) delays) files = (Inr runs, files') \<and>
                rows' gate = rows gate @ map (printed_accuracy fmt gate) runs"
proof (induction delays arbitrary: rows files)
  case Nil
  then show ?case by simp
next
  case (Cons d ds)
  from Cons.prems obtain ga f1 where
    tp: "test_parameters threshold d (world threshold d) files = (Inr ga, f1)"
    and rest: "delay_loop fmt world threshold ds (add_results fmt ga rows) f1 = (Inr rows', files')"
    by (auto split: prod.splits sum.splits)
  from Cons.IH [OF rest] obtain runs where
    g: "grid_runs world (map (Pair threshold) ds) f1 = (Inr runs, files')"
    and v: "rows' gate = add_results fmt ga rows gate @ map (printed_accuracy fmt gate) runs"
    by blast
  have "grid_runs world (map (Pair threshold) (d # ds)) files
          = (Inr (((threshold, d), ga) # runs), files')"
    using tp g by simp
  moreover have "rows' gate
          = rows gate @ map (printed_accuracy fmt gate) (((threshold, d), ga) # runs)"
    using v add_results_gate [OF assms] by (simp add: cell_printed [of fmt ga gate "(threshold, d)"])
  ultimately show ?case by blast
qed

lemma threshold_loop_runs:
  assumes "gate \<in> set GATE_NAMES"
  shows "threshold_loop fmt world thresholds rfiles files = (Inr (), rfiles', files') \<Longrightarrow>
         \<exists>runs rows. grid_runs world (List.product thresholds DELAYS) files = (Inr runs, files') \<and>
           rfiles' gate = rfiles gate @ rows \<and> map fst rows = thresholds \<and>
           (\<forall>row\<in>set rows. length (snd row) = length DELAYS) \<and>
           concat (map snd rows) = map (printed_accuracy fmt gate) runs"
proof (induction thresholds arbitrary: rfiles files)
  case Nil
  then show ?case by simp
next
  case (Cons t ts)
  from Cons.prems obtain rows f1 where
    dl: "delay_loop fmt world t DELAYS (\<lambda>gate. []) files = (Inr rows, f1)"
    and rest: "threshold_loop fmt world ts (write_rows t rows rfiles) f1 = (Inr (), rfiles', files')"
    by (auto split: prod.splits sum.splits)
  from delay_loop_runs [OF assms dl] obtain r1 where
    g1: "grid_runs world (map (Pair t) DELAYS) files = (Inr r1, f1)"
    and row: "rows gate = map (printed_accuracy fmt gate) r1"
    by auto
  have "length r1 = length DELAYS"
    using grid_runs_points [OF g1] by (metis length_map)
  then have len: "length (rows gate) = length DELAYS" using row by simp
  from Cons.IH [OF rest] obtain r2 more where
    g2: "grid_runs world (List.product ts DELAYS) f1 = (Inr r2, files')"
    and m: "rfiles' gate = write_rows t rows rfiles gate @ more" "map fst more = ts"
      "\<forall>row\<in>set more. length (snd row) = length DELAYS"
      "concat (map snd more) = map (printed_accuracy fmt gate) r2"
    by blast
  have "grid_runs world (List.product (t # ts) DELAYS) files = (Inr (r1 @ r2), files')"
    using grid_runs_append [OF g1 g2] by simp
  moreover have "rfiles' gate = rfiles gate @ ((t, rows gate) # more)"
    using m(1) write_rows_gate [OF assms] by simp
  moreover have "map fst ((t, rows gate) # more) = t # ts" using m(2) by simp
  moreover have "\<forall>row\<in>set ((t, rows gate) # more). length (snd row) = length DELAYS"
    using m(3) len by simp
  moreover have "concat (map snd ((t, rows gate) # more)) = map (printed_accuracy fmt gate) (r1 @ r2)"
    using m(4) row by simp
  ultimately show ?case
    by (intro exI [of _ "r1 @ r2"] exI [of _ "(t, rows gate) # more"] conjI)
qed

lemma concat_nth_rows:
  "\<forall>r\<in>set xss. length r = n \<Longrightarrow> i < length xss \<Longrightarrow> j < n \<Longrightarrow>
   concat xss ! (i * n + j) = xss ! i ! j"
proof (induction xss arbitrary: i)
  case Nil
  then show ?case by simp
next
  case (Cons r rs)
  show ?case
  proof (cases i)
    case 0
    then show ?thesis using Cons.prems by (simp add: nth_append)
  next
    case (Suc k)
    have "concat (r # rs) ! (Suc k * n + j) = (r @ concat rs) ! (length r + (k * n + j))"
      using Cons.prems(1) by (simp add: add.assoc)
    also have "\<dots> = concat rs ! (k * n + j)"
      by (simp only: nth_append_length_plus)
    also have "\<dots> = rs ! k ! j"
      using Cons.IH [of k] Cons.prems Suc by simp
    finally show ?thesis using Suc by simp
  qed
qed

lemma grid_point_nth:
  assumes "i < length ts" and "j < length ds"
  shows "List.product ts ds ! (i * length ds + j) = (ts ! i, ds ! j)"
proof -
  have "i * length ds + j < length ts * length ds"
  proof -
    have "i * length ds + j < i * length ds + length ds" using assms(2) by simp
    also have "\<dots> = Suc i * length ds" by simp
    also have "\<dots> \<le> length ts * length ds"
      using assms(1) by (intro mult_le_mono1) simp
    finally show ?thesis .
  qed
  moreover have "(i * length ds + j) div length ds = i" "(i * length ds + j) mod length ds = j"
  proof -
    have "0 < length ds" using assms(2) by (cases ds) simp_all
    then show "(i * length ds + j) div length ds = i" "(i * length ds + j) mod length ds = j"
      using assms(2) by simp_all
  qed
  ultimately show ?thesis
    by (simp only: product_nth)
qed

lemma parse_graded: "parse_stdout (graded_out t d) = Inr (graded_accs t d)"
proof (cases "t = 125")
  case True
  have "parse_stdout ''=== AND gate ===\<newline>Correct rate: (avg, std) (50.0%, 0.0%)\<newline>''
          = Inr [(''AND'', 50)]"
    by code_simp
  with True show ?thesis by (simp add: graded_out_def graded_accs_def)
next
  case False
  have p: "parse_stdout (xor_report ''61.5'') = Inr [(''XOR'', 61.5)]"
    "parse_stdout (xor_report ''70.0'') = Inr [(''XOR'', 70)]"
    "parse_stdout (xor_report ''78.5'') = Inr [(''XOR'', 78.5)]"
    "parse_stdout (xor_report ''85.0'') = Inr [(''XOR'', 85)]"
    "parse_stdout (xor_report ''91.5'') = Inr [(''XOR'', 91.5)]"
    "parse_stdout (xor_report ''96.0'') = Inr [(''XOR'', 96)]"
    "parse_stdout (xor_report ''99.5'') = Inr [(''XOR'', 99.5)]"
    "parse_stdout (xor_report ''88.0'') = Inr [(''XOR'', 88)]"
    "parse_stdout (xor_report ''74.5'') = Inr [(''XOR'', 74.5)]"
    "parse_stdout (xor_report ''0.0'') = Inr [(''XOR'', 0)]"
    by code_simp+
  consider "d = 32" | "d = 48" | "d = 64" | "d = 96" | "d = 128" | "d = 192" | "d = 256"
    | "d = 512" | "d = 1024"
    | "d \<noteq> 32 \<and> d \<noteq> 48 \<and> d \<noteq> 64 \<and> d \<noteq> 96 \<and> d \<noteq> 128 \<and> d \<noteq> 192 \<and> d \<noteq> 256 \<and> d \<noteq> 512 \<and> d \<noteq> 1024"
    by blast
  then show ?thesis
    using False by cases (simp_all add: graded_out_def graded_accs_def grade_def p)
qed

lemma graded_step:
  assumes c: "fs ''gates/compose.cpp'' = Some c" and m: "fs ''main.cpp'' = Some m"
  shows "\<exists>fs'. test_parameters t d (graded_world t d) fs = (Inr (graded_accs t d), fs') \<and>
           fs' ''gates/compose.cpp'' = Some c \<and> fs' ''main.cpp'' = Some m"
proof -
  let ?out = "graded_out t d"
  let ?sys = "stub_os (Exited 0 []) (Exited 0 []) (Exited 0 ?out)"
  let ?f2 = "fs(''gates/compose_temp.cpp'' \<mapsto> modified_content_compose t d c,
                ''main_temp.cpp'' \<mapsto> modified_content_main t d m)"
  have ok: "\<And>argv fs. \<exists>out. fst (?sys argv fs) = Exited 0 out"
    by (simp add: stub_os_def Let_def)
  have run: "\<And>fs. fst (?sys [''./main_temp.elf'', ''-t'', py_str AMT_TRIALS] fs) = Exited 0 ?out"
    by (simp add: stub_os_def)
  have r: "fst (try_body ?sys ?f2) = Inr (graded_accs t d)"
    using try_body_success [of ?sys ?out ?f2, OF ok run] parse_graded by simp
  have tp: "test_parameters t d (graded_world t d) fs =
          (except_handler (fst (try_body ?sys ?f2)), cleanup (snd (try_body ?sys ?f2)))"
    using test_parameters_result [OF c m, of t d ?sys] by (simp add: Let_def graded_world_def)
  have "cleanup (snd (try_body ?sys ?f2)) ''gates/compose.cpp'' = Some c"
    using c by (simp add: cleanup_other stub_os_files)
  moreover have "cleanup (snd (try_body ?sys ?f2)) ''main.cpp'' = Some m"
    using m by (simp add: cleanup_other stub_os_files)
  ultimately show ?thesis
    unfolding tp r by (simp add: except_handler_def)
qed

lemma graded_runs:
  "fs ''gates/compose.cpp'' = Some c \<and> fs ''main.cpp'' = Some m \<Longrightarrow>
   \<exists>fs'. grid_runs graded_world points fs
            = (Inr (map (\<lambda>p. (p, graded_accs (fst p) (snd p))) points), fs') \<and>
         fs' ''gates/compose.cpp'' = Some c \<and> fs' ''main.cpp'' = Some m"
proof (induction points arbitrary: fs)
  case Nil
  then show ?case by simp
next
  case (Cons p ps)
  from Cons.prems have "fs ''gates/compose.cpp'' = Some c" "fs ''main.cpp'' = Some m" by blast+
  from graded_step [OF this, of "fst p" "snd p"] obtain f1 where
    tp: "test_parameters (fst p) (snd p) (graded_world (fst p) (snd p)) fs
           = (Inr (graded_accs (fst p) (snd p)), f1)"
    and g: "f1 ''gates/compose.cpp'' = Some c \<and> f1 ''main.cpp'' = Some m"
    by blast
  from Cons.IH [OF g] obtain f2 where
    "grid_runs graded_world ps f1 = (Inr (map (\<lambda>p. (p, graded_accs (fst p) (snd p))) ps), f2)"
    "f2 ''gates/compose.cpp'' = Some c \<and> f2 ''main.cpp'' = Some m"
    by blast
  with tp show ?case by simp
qed

lemma graded_sweep_completes:
  "\<exists>rfiles files'. sweep (\<lambda>a. a) graded_world template_files = (Inr (), rfiles, files')"
  unfolding sweep_def
proof (rule threshold_loop_completes
    [where good = "\<lambda>fs. fs ''gates/compose.cpp'' = Some template_compose \<and>
                      fs ''main.cpp'' = Some template_main"])
  show "template_files ''gates/compose.cpp'' = Some template_compose \<and>
        template_files ''main.cpp'' = Some template_main"
    by (simp add: template_files_def)
next
  fix t d fs
  assume "fs ''gates/compose.cpp'' = Some template_compose \<and> fs ''main.cpp'' = Some template_main"
  then show "\<exists>ga fs'. test_parameters t d (graded_world t d) fs = (Inr ga, fs') \<and>
                fs' ''gates/compose.cpp'' = Some template_compose \<and> fs' ''main.cpp'' = Some template_main"
    using graded_step [of fs template_compose template_main t d] by blast
qed

lemma graded_values:
  "map (\<lambda>i. map (\<lambda>j. printed_accuracy (\<lambda>a. a) ''XOR''
                       (map (\<lambda>p. (p, graded_accs (fst p) (snd p))) (List.product THRESHOLDS DELAYS)
                          ! (i * length DELAYS + j)))
               [0..<length DELAYS])
       [0..<length THRESHOLDS]
     = [[61.5, 70, 78.5, 85, 91.5, 96, 99.5, 88, 74.5],
        [0, 0, 0, 0, 0, 0, 0, 0, 0],
        [61.5, 70, 78.5, 85, 91.5, 96, 99.5, 88, 74.5],
        [61.5, 70, 78.5, 85, 91.5, 96, 99.5, 88, 74.5],
        [61.5, 70, 78.5, 85, 91.5, 96, 99.5, 88, 74.5],
        [61.5, 70, 78.5, 85, 91.5, 96, 99.5, 88, 74.5],
        [61.5, 70, 78.5, 85, 91.5, 96, 99.5, 88, 74.5],
        [61.5, 70, 78.5, 85, 91.5, 96, 99.5, 88, 74.5],
        [61.5, 70, 78.5, 85, 91.5, 96, 99.5, 88, 74.5]]"
  by code_simp

text \<open>
  C7. After a sweep that ran to its end, the rows of every gate's result file carry the
  thresholds 100, 125, ..., 300 in this order: strictly ascending, and exactly the
  members of the progression from 100 to 300 in steps of 25. Every row holds one value
  per delay. The sweep has run \<^verbatim>\<open>test_parameters\<close> at the grid points in row-major order,
  each run on the files the one before left, and the value at position \<open>j\<close> of row \<open>i\<close>
  is the accuracy that the run at threshold \<open>i\<close> and delay \<open>j\<close> returned for the gate, as
  printed, and 0 when that run did not name the gate.
\<close>

theorem completed_sweep_matrix:
  assumes "sweep fmt world files = (Inr (), rfiles, files')"
    and "gate \<in> set GATE_NAMES"
  shows "map fst (rfiles gate) = THRESHOLDS \<and>
         sorted_wrt (<) (map fst (rfiles gate)) \<and>
         set (map fst (rfiles gate)) = {t. 100 \<le> t \<and> t \<le> 300 \<and> (t - 100) mod 25 = 0} \<and>
         map (\<lambda>row. length (snd row)) (rfiles gate) = map (\<lambda>t. length DELAYS) THRESHOLDS \<and>
         (\<exists>runs. grid_runs world (List.product THRESHOLDS DELAYS) files = (Inr runs, files') \<and>
            (\<forall>i<length THRESHOLDS. \<forall>j<length DELAYS.
               fst (runs ! (i * length DELAYS + j)) = (THRESHOLDS ! i, DELAYS ! j) \<and>
               snd (rfiles gate ! i) ! j
                 = (case map_of (snd (runs ! (i * length DELAYS + j))) gate of
                      None \<Rightarrow> 0 | Some accuracy \<Rightarrow> fmt accuracy)))"
proof -
  from threshold_loop_runs [OF assms(2) assms(1) [unfolded sweep_def]]
  obtain runs where
    g: "grid_runs world (List.product THRESHOLDS DELAYS) files = (Inr runs, files')"
    and t: "map fst (rfiles gate) = THRESHOLDS"
    and l: "\<forall>row\<in>set (rfiles gate). length (snd row) = length DELAYS"
    and c: "concat (map snd (rfiles gate)) = map (printed_accuracy fmt gate) runs"
    by auto
  have n: "length (rfiles gate) = length THRESHOLDS"
    using t by (metis length_map)
  have p: "map fst runs = List.product THRESHOLDS DELAYS"
    using g by (rule grid_runs_points)
  then have lr: "length runs = length THRESHOLDS * length DELAYS"
    by (metis length_map length_product)
  have s: "sorted_wrt (<) THRESHOLDS" by (simp add: THRESHOLDS_list)
  have ll: "map (\<lambda>row. length (snd row)) (rfiles gate) = map (\<lambda>t. length DELAYS) THRESHOLDS"
  proof (rule nth_equalityI)
    show "length (map (\<lambda>row. length (snd row)) (rfiles gate)) = length (map (\<lambda>t. length DELAYS) THRESHOLDS)"
      using n by simp
  next
    fix i assume "i < length (map (\<lambda>row. length (snd row)) (rfiles gate))"
    then have i: "i < length (rfiles gate)" by simp
    then have "rfiles gate ! i \<in> set (rfiles gate)" by simp
    with l have "length (snd (rfiles gate ! i)) = length DELAYS" by blast
    then show "map (\<lambda>row. length (snd row)) (rfiles gate) ! i = map (\<lambda>t. length DELAYS) THRESHOLDS ! i"
      using i n by simp
  qed
  have pt: "fst (runs ! (i * length DELAYS + j)) = (THRESHOLDS ! i, DELAYS ! j) \<and>
            snd (rfiles gate ! i) ! j
              = (case map_of (snd (runs ! (i * length DELAYS + j))) gate of
                   None \<Rightarrow> 0 | Some accuracy \<Rightarrow> fmt accuracy)"
    if i: "i < length THRESHOLDS" and j: "j < length DELAYS" for i j
  proof -
    let ?k = "i * length DELAYS + j"
    have k: "?k < length runs"
    proof -
      have "?k < i * length DELAYS + length DELAYS" using j by simp
      also have "\<dots> = Suc i * length DELAYS" by simp
      also have "\<dots> \<le> length THRESHOLDS * length DELAYS"
        using i by (intro mult_le_mono1) simp
      finally show ?thesis using lr by simp
    qed
    have "fst (runs ! ?k) = map fst runs ! ?k" using k by simp
    also have "\<dots> = (THRESHOLDS ! i, DELAYS ! j)"
      unfolding p using i j by (rule grid_point_nth)
    finally have a: "fst (runs ! ?k) = (THRESHOLDS ! i, DELAYS ! j)" .
    have "\<forall>r\<in>set (map snd (rfiles gate)). length r = length DELAYS" using l by simp
    then have "concat (map snd (rfiles gate)) ! ?k = map snd (rfiles gate) ! i ! j"
      using i j n by (intro concat_nth_rows) simp_all
    then have "snd (rfiles gate ! i) ! j = map (printed_accuracy fmt gate) runs ! ?k"
      using c i n by simp
    also have "\<dots> = printed_accuracy fmt gate (runs ! ?k)" using k by simp
    finally have b: "snd (rfiles gate ! i) ! j
              = (case map_of (snd (runs ! ?k)) gate of None \<Rightarrow> 0 | Some accuracy \<Rightarrow> fmt accuracy)"
      by (simp add: printed_accuracy_def)
    from a b show ?thesis by (rule conjI)
  qed
  have "\<exists>runs. grid_runs world (List.product THRESHOLDS DELAYS) files = (Inr runs, files') \<and>
            (\<forall>i<length THRESHOLDS. \<forall>j<length DELAYS.
               fst (runs ! (i * length DELAYS + j)) = (THRESHOLDS ! i, DELAYS ! j) \<and>
               snd (rfiles gate ! i) ! j
                 = (case map_of (snd (runs ! (i * length DELAYS + j))) gate of
                      None \<Rightarrow> 0 | Some accuracy \<Rightarrow> fmt accuracy))"
    using g pt by blast
  with t s ll THRESHOLDS_set show ?thesis by (simp only: simp_thms)
qed

theorem completed_sweep_matrix_witness:
  "fst (sweep (\<lambda>a. a) graded_world template_files) = Inr () \<and>
   ''XOR'' \<in> set GATE_NAMES \<and>
   fst (snd (sweep (\<lambda>a. a) graded_world template_files)) ''XOR''
     = [(100, [61.5, 70, 78.5, 85, 91.5, 96, 99.5, 88, 74.5]),
        (125, [0, 0, 0, 0, 0, 0, 0, 0, 0]),
        (150, [61.5, 70, 78.5, 85, 91.5, 96, 99.5, 88, 74.5]),
        (175, [61.5, 70, 78.5, 85, 91.5, 96, 99.5, 88, 74.5]),
        (200, [61.5, 70, 78.5, 85, 91.5, 96, 99.5, 88, 74.5]),
        (225, [61.5, 70, 78.5, 85, 91.5, 96, 99.5, 88, 74.5]),
        (250, [61.5, 70, 78.5, 85, 91.5, 96, 99.5, 88, 74.5]),
        (275, [61.5, 70, 78.5, 85, 91.5, 96, 99.5, 88, 74.5]),
        (300, [61.5, 70, 78.5, 85, 91.5, 96, 99.5, 88, 74.5])]"
proof -
  obtain rfiles files' where
    s: "sweep (\<lambda>a. a) graded_world template_files = (Inr (), rfiles, files')"
    using graded_sweep_completes by blast
  have g: "''XOR'' \<in> set GATE_NAMES" by (simp add: GATE_NAMES_def)
  define R where "R = map (\<lambda>p. (p, graded_accs (fst p) (snd p))) (List.product THRESHOLDS DELAYS)"
  define V where "V = (\<lambda>i j. printed_accuracy (\<lambda>a. a) ''XOR'' (R ! (i * length DELAYS + j)))"
  have "template_files ''gates/compose.cpp'' = Some template_compose \<and>
        template_files ''main.cpp'' = Some template_main"
    by (simp add: template_files_def)
  from graded_runs [OF this, of "List.product THRESHOLDS DELAYS"] obtain fs2 where
    gr: "grid_runs graded_world (List.product THRESHOLDS DELAYS) template_files = (Inr R, fs2)"
    unfolding R_def by blast
  from completed_sweep_matrix [OF s g] obtain runs where
    t: "map fst (rfiles ''XOR'') = THRESHOLDS"
    and ll: "map (\<lambda>row. length (snd row)) (rfiles ''XOR'') = map (\<lambda>t. length DELAYS) THRESHOLDS"
    and gr': "grid_runs graded_world (List.product THRESHOLDS DELAYS) template_files = (Inr runs, files')"
    and pt: "\<forall>i<length THRESHOLDS. \<forall>j<length DELAYS.
               fst (runs ! (i * length DELAYS + j)) = (THRESHOLDS ! i, DELAYS ! j) \<and>
               snd (rfiles ''XOR'' ! i) ! j
                 = (case map_of (snd (runs ! (i * length DELAYS + j))) ''XOR'' of
                      None \<Rightarrow> 0 | Some accuracy \<Rightarrow> accuracy)"
    by blast
  from gr gr' have runs: "runs = R" by simp
  have n: "length (rfiles ''XOR'') = length THRESHOLDS"
    using t by (metis length_map)
  have v: "snd (rfiles ''XOR'' ! i) ! j = V i j"
    if "i < length THRESHOLDS" "j < length DELAYS" for i j
    using pt that unfolding runs V_def printed_accuracy_def by blast
  have len: "length (snd (rfiles ''XOR'' ! i)) = length DELAYS" if i: "i < length THRESHOLDS" for i
  proof -
    have "map (\<lambda>row. length (snd row)) (rfiles ''XOR'') ! i = map (\<lambda>t. length DELAYS) THRESHOLDS ! i"
      using ll by simp
    then show ?thesis using i n by simp
  qed
  have "map snd (rfiles ''XOR'')
          = map (\<lambda>i. map (\<lambda>j. V i j) [0..<length DELAYS]) [0..<length THRESHOLDS]"
  proof (rule nth_equalityI)
    show "length (map snd (rfiles ''XOR''))
            = length (map (\<lambda>i. map (\<lambda>j. V i j) [0..<length DELAYS]) [0..<length THRESHOLDS])"
      using n by simp
  next
    fix i assume "i < length (map snd (rfiles ''XOR''))"
    then have i: "i < length THRESHOLDS" using n by simp
    have "snd (rfiles ''XOR'' ! i) = map (\<lambda>j. V i j) [0..<length DELAYS]"
    proof (rule nth_equalityI)
      show "length (snd (rfiles ''XOR'' ! i)) = length (map (\<lambda>j. V i j) [0..<length DELAYS])"
        using len [OF i] by simp
    next
      fix j assume "j < length (snd (rfiles ''XOR'' ! i))"
      then have j: "j < length DELAYS" using len [OF i] by simp
      then show "snd (rfiles ''XOR'' ! i) ! j = map (\<lambda>j. V i j) [0..<length DELAYS] ! j"
        using v [OF i j] by simp
    qed
    then show "map snd (rfiles ''XOR'') ! i
                 = map (\<lambda>i. map (\<lambda>j. V i j) [0..<length DELAYS]) [0..<length THRESHOLDS] ! i"
      using i n by simp
  qed
  then have m: "map snd (rfiles ''XOR'')
     = [[61.5, 70, 78.5, 85, 91.5, 96, 99.5, 88, 74.5],
        [0, 0, 0, 0, 0, 0, 0, 0, 0],
        [61.5, 70, 78.5, 85, 91.5, 96, 99.5, 88, 74.5],
        [61.5, 70, 78.5, 85, 91.5, 96, 99.5, 88, 74.5],
        [61.5, 70, 78.5, 85, 91.5, 96, 99.5, 88, 74.5],
        [61.5, 70, 78.5, 85, 91.5, 96, 99.5, 88, 74.5],
        [61.5, 70, 78.5, 85, 91.5, 96, 99.5, 88, 74.5],
        [61.5, 70, 78.5, 85, 91.5, 96, 99.5, 88, 74.5],
        [61.5, 70, 78.5, 85, 91.5, 96, 99.5, 88, 74.5]]"
    unfolding V_def R_def by (simp only: graded_values)
  have "rfiles ''XOR'' = zip (map fst (rfiles ''XOR'')) (map snd (rfiles ''XOR''))"
    by (simp only: zip_map_fst_snd)
  then have "rfiles ''XOR''
     = [(100, [61.5, 70, 78.5, 85, 91.5, 96, 99.5, 88, 74.5]),
        (125, [0, 0, 0, 0, 0, 0, 0, 0, 0]),
        (150, [61.5, 70, 78.5, 85, 91.5, 96, 99.5, 88, 74.5]),
        (175, [61.5, 70, 78.5, 85, 91.5, 96, 99.5, 88, 74.5]),
        (200, [61.5, 70, 78.5, 85, 91.5, 96, 99.5, 88, 74.5]),
        (225, [61.5, 70, 78.5, 85, 91.5, 96, 99.5, 88, 74.5]),
        (250, [61.5, 70, 78.5, 85, 91.5, 96, 99.5, 88, 74.5]),
        (275, [61.5, 70, 78.5, 85, 91.5, 96, 99.5, 88, 74.5]),
        (300, [61.5, 70, 78.5, 85, 91.5, 96, 99.5, 88, 74.5])]"
    unfolding t m by (simp add: THRESHOLDS_list)
  with g show ?thesis unfolding s by simp
qed

section \<open>The selector\<close>

lemma scan_row_beyond:
  "length DELAYS \<le> i \<Longrightarrow> scan_row threshold i accuracies best = best"
  by (induction accuracies arbitrary: i best) auto

lemma scan_row_cells:
  "scan_row threshold i accuracies best =
     scan_cells (map (\<lambda>(delay, accuracy). (threshold, delay, accuracy))
                   (zip (drop i DELAYS) accuracies)) best"
proof (induction accuracies arbitrary: i best)
  case Nil
  then show ?case by simp
next
  case (Cons a accs)
  show ?case
  proof (cases "i < length DELAYS")
    case True
    then have d: "drop i DELAYS = DELAYS ! i # drop (Suc i) DELAYS"
      by (simp add: Cons_nth_drop_Suc)
    show ?thesis
      unfolding d using True Cons.IH [of "Suc i"] by (simp add: config_of_def)
  next
    case False
    then have "drop i DELAYS = []" by simp
    moreover have "scan_row threshold i (a # accs) best = best"
      using False by (intro scan_row_beyond) simp
    ultimately show ?thesis by simp
  qed
qed

lemma scan_cells_append:
  "scan_cells (xs @ ys) best = scan_cells ys (scan_cells xs best)"
  by (induction xs arbitrary: best) auto

lemma scan_rows_cells: "scan_rows rows best = scan_cells (cells rows) best"
proof (induction rows arbitrary: best)
  case Nil
  then show ?case by (simp add: cells_def)
next
  case (Cons r rows)
  obtain t accs where r: "r = (t, accs)" by (cases r)
  have "scan_row t 0 accs best = scan_cells (row_cells r) best"
    unfolding r using scan_row_cells [of t 0 accs best] by (simp add: row_cells_def)
  then show ?case
    using Cons.IH unfolding r by (simp add: cells_def scan_cells_append)
qed

lemma best_accuracy_config_of: "best_accuracy (config_of c) = snd (snd c)"
  by (simp add: config_of_def)

lemma scan_cells_none:
  "\<forall>c\<in>set cs. snd (snd c) \<le> best_accuracy best \<Longrightarrow> scan_cells cs best = best"
  by (induction cs arbitrary: best) auto

lemma scan_cells_first_max:
  "\<exists>c\<in>set cs. best_accuracy best < snd (snd c) \<Longrightarrow>
   \<exists>pre c post. cs = pre @ c # post \<and> scan_cells cs best = config_of c \<and>
     best_accuracy best < snd (snd c) \<and>
     (\<forall>x\<in>set pre. snd (snd x) < snd (snd c)) \<and>
     (\<forall>x\<in>set post. snd (snd x) \<le> snd (snd c))"
proof (induction cs arbitrary: best)
  case Nil
  then show ?case by simp
next
  case (Cons c cs)
  define b1 where "b1 = (if snd (snd c) > best_accuracy best then config_of c else best)"
  have sc: "scan_cells (c # cs) best = scan_cells cs b1" by (simp add: b1_def)
  have b1_ge: "best_accuracy best \<le> best_accuracy b1" "snd (snd c) \<le> best_accuracy b1"
    by (auto simp: b1_def best_accuracy_config_of)
  show ?case
  proof (cases "\<exists>x\<in>set cs. best_accuracy b1 < snd (snd x)")
    case True
    from Cons.IH [OF True] obtain pre c' post where
      *: "cs = pre @ c' # post" "scan_cells cs b1 = config_of c'"
         "best_accuracy b1 < snd (snd c')"
         "\<forall>x\<in>set pre. snd (snd x) < snd (snd c')"
         "\<forall>x\<in>set post. snd (snd x) \<le> snd (snd c')"
      by blast
    have "c # cs = (c # pre) @ c' # post" using *(1) by simp
    moreover have "scan_cells (c # cs) best = config_of c'" using sc *(2) by simp
    moreover have "best_accuracy best < snd (snd c')" using b1_ge(1) *(3) by simp
    moreover have "\<forall>x\<in>set (c # pre). snd (snd x) < snd (snd c')"
      using b1_ge(2) *(3,4) by auto
    ultimately show ?thesis using *(5) by blast
  next
    case False
    then have le: "\<forall>x\<in>set cs. snd (snd x) \<le> best_accuracy b1" by auto
    then have same: "scan_cells cs b1 = b1" by (rule scan_cells_none)
    have gt: "best_accuracy best < snd (snd c)"
    proof (rule ccontr)
      assume n: "\<not> best_accuracy best < snd (snd c)"
      then have "b1 = best" by (simp add: b1_def)
      with le n have "\<forall>x\<in>set (c # cs). snd (snd x) \<le> best_accuracy best" by auto
      with Cons.prems show False by force
    qed
    then have b1: "b1 = config_of c" by (simp add: b1_def)
    have "c # cs = [] @ c # cs" by simp
    moreover have "scan_cells (c # cs) best = config_of c" using sc same b1 by simp
    moreover have "\<forall>x\<in>set cs. snd (snd x) \<le> snd (snd c)"
      using le b1 by (simp add: best_accuracy_config_of)
    ultimately show ?thesis using gt by (metis empty_iff list.set(1))
  qed
qed

lemma cells_grid_point:
  assumes "c \<in> set (cells rows)" and "\<forall>r\<in>set rows. fst r \<in> set THRESHOLDS"
  shows "is_grid_point (fst c) (fst (snd c))"
proof -
  from assms(1) obtain r where r: "r \<in> set rows" "c \<in> set (row_cells r)"
    by (auto simp: cells_def)
  then obtain d a where "(d, a) \<in> set (zip DELAYS (snd r))" "c = (fst r, d, a)"
    by (auto simp: row_cells_def)
  then have "fst c = fst r" "fst (snd c) \<in> set DELAYS"
    by (auto dest: set_zip_leftD)
  with r(1) assms(2) show ?thesis by (simp add: is_grid_point_def)
qed

lemma tie_cells:
  "cells tie_rows =
     [(100, 32, 0), (100, 48, 50)] @ (100, 64, 90) #
     [(100, 96, 10), (100, 128, 0), (100, 192, 0), (100, 256, 0), (100, 512, 0), (100, 1024, 0),
      (125, 32, 90), (125, 48, 0), (125, 64, 0), (125, 96, 0), (125, 128, 20), (125, 192, 0),
      (125, 256, 0), (125, 512, 0), (125, 1024, 90)]"
  by (simp add: cells_def row_cells_def tie_rows_def DELAYS_def)

text \<open>
  C1. The record the selector computes for a matrix. When some cell holds an accuracy
  above 0, the record is a cell of the matrix: every cell before it in row-major order is
  strictly smaller, every cell after it is at most as large, so that its accuracy is the
  maximum of the matrix and it is the first cell holding it; it is a grid point when the
  rows carry thresholds of the grid. When no cell is above 0 the record is the initial
  one, threshold 0, delay 0, accuracy 0, which is no grid point.
\<close>

theorem select_best_first_maximum:
  "(if \<exists>c\<in>set (cells rows). 0 < snd (snd c)
    then \<exists>pre c post. cells rows = pre @ c # post \<and> select_best rows = config_of c \<and>
           (\<forall>x\<in>set pre. snd (snd x) < snd (snd c)) \<and>
           (\<forall>x\<in>set post. snd (snd x) \<le> snd (snd c)) \<and>
           best_accuracy (select_best rows) = Max ((\<lambda>x. snd (snd x)) ` set (cells rows)) \<and>
           ((\<forall>r\<in>set rows. fst r \<in> set THRESHOLDS) \<longrightarrow>
              is_grid_point (best_threshold (select_best rows)) (best_delay (select_best rows)))
    else select_best rows = \<lparr>best_threshold = 0, best_delay = 0, best_accuracy = 0\<rparr>)"
proof (cases "\<exists>c\<in>set (cells rows). 0 < snd (snd c)")
  case True
  let ?b0 = "\<lparr>best_threshold = 0, best_delay = 0, best_accuracy = 0\<rparr>"
  have sel: "select_best rows = scan_cells (cells rows) ?b0"
    by (simp add: select_best_def scan_rows_cells)
  from True have "\<exists>c\<in>set (cells rows). best_accuracy ?b0 < snd (snd c)" by simp
  from scan_cells_first_max [OF this] obtain pre c post where
    *: "cells rows = pre @ c # post" "scan_cells (cells rows) ?b0 = config_of c"
       "\<forall>x\<in>set pre. snd (snd x) < snd (snd c)"
       "\<forall>x\<in>set post. snd (snd x) \<le> snd (snd c)"
    by blast
  have mem: "c \<in> set (cells rows)" using *(1) by simp
  have "\<forall>x\<in>set (cells rows). snd (snd x) \<le> snd (snd c)"
    unfolding *(1) using *(3,4) by auto
  then have "Max ((\<lambda>x. snd (snd x)) ` set (cells rows)) = snd (snd c)"
    using mem by (intro Max_eqI) auto
  then have mx: "best_accuracy (select_best rows) = Max ((\<lambda>x. snd (snd x)) ` set (cells rows))"
    using sel *(2) by (simp add: best_accuracy_config_of)
  have gp: "(\<forall>r\<in>set rows. fst r \<in> set THRESHOLDS) \<longrightarrow>
              is_grid_point (best_threshold (select_best rows)) (best_delay (select_best rows))"
    using cells_grid_point [OF mem] sel *(2) by (simp add: config_of_def)
  have "\<exists>pre c post. cells rows = pre @ c # post \<and> select_best rows = config_of c \<and>
           (\<forall>x\<in>set pre. snd (snd x) < snd (snd c)) \<and>
           (\<forall>x\<in>set post. snd (snd x) \<le> snd (snd c)) \<and>
           best_accuracy (select_best rows) = Max ((\<lambda>x. snd (snd x)) ` set (cells rows)) \<and>
           ((\<forall>r\<in>set rows. fst r \<in> set THRESHOLDS) \<longrightarrow>
              is_grid_point (best_threshold (select_best rows)) (best_delay (select_best rows)))"
    using * sel mx gp by (intro exI [of _ pre] exI [of _ c] exI [of _ post]) simp
  with True show ?thesis by (simp only: if_True)
next
  case False
  then have "\<forall>c\<in>set (cells rows). snd (snd c) \<le>
               best_accuracy \<lparr>best_threshold = 0, best_delay = 0, best_accuracy = 0\<rparr>"
    by (auto simp: not_less)
  then have "select_best rows = \<lparr>best_threshold = 0, best_delay = 0, best_accuracy = 0\<rparr>"
    unfolding select_best_def scan_rows_cells by (rule scan_cells_none)
  with False show ?thesis by (simp only: if_False)
qed

theorem select_best_first_maximum_witness:
  "(\<exists>c\<in>set (cells tie_rows). 0 < snd (snd c)) \<and>
   set (map fst tie_rows) \<subseteq> set THRESHOLDS \<and>
   select_best tie_rows = \<lparr>best_threshold = 100, best_delay = 64, best_accuracy = 90\<rparr> \<and>
   best_accuracy (select_best tie_rows) = Max ((\<lambda>x. snd (snd x)) ` set (cells tie_rows)) \<and>
   is_grid_point (best_threshold (select_best tie_rows)) (best_delay (select_best tie_rows))"
proof -
  have pos: "\<exists>c\<in>set (cells tie_rows). 0 < snd (snd c)"
    unfolding tie_cells by simp
  have thr: "\<forall>r\<in>set tie_rows. fst r \<in> set THRESHOLDS"
    by (simp add: tie_rows_def THRESHOLDS_list)
  then have sub: "set (map fst tie_rows) \<subseteq> set THRESHOLDS" by auto
  have sel: "select_best tie_rows = \<lparr>best_threshold = 100, best_delay = 64, best_accuracy = 90\<rparr>"
    by (simp add: select_best_def tie_rows_def DELAYS_def)
  from select_best_first_maximum [of tie_rows] pos thr
  have "best_accuracy (select_best tie_rows) = Max ((\<lambda>x. snd (snd x)) ` set (cells tie_rows)) \<and>
        is_grid_point (best_threshold (select_best tie_rows)) (best_delay (select_best tie_rows))"
    by (simp only: if_True) blast
  with pos sub sel show ?thesis by blast
qed

theorem select_best_zero_matrix_counterexample:
  "select_best zero_rows = \<lparr>best_threshold = 0, best_delay = 0, best_accuracy = 0\<rparr> \<and>
   \<not> is_grid_point (best_threshold (select_best zero_rows)) (best_delay (select_best zero_rows)) \<and>
   map fst zero_rows = [100, 125, 150, 175, 200, 225, 250, 275, 300] \<and>
   snd (hd zero_rows) = [0, 0, 0, 0, 0, 0, 0, 0, 0] \<and>
   hd (cells zero_rows) = (100, 32, 0)"
proof -
  have z: "zero_rows = map (\<lambda>threshold. (threshold, [0, 0, 0, 0, 0, 0, 0, 0, 0]))
                 [100, 125, 150, 175, 200, 225, 250, 275, 300]"
    by (simp add: zero_rows_def THRESHOLDS_list DELAYS_def)
  have s: "select_best zero_rows = \<lparr>best_threshold = 0, best_delay = 0, best_accuracy = 0\<rparr>"
    unfolding z by (simp add: select_best_def)
  have g: "\<not> is_grid_point 0 0"
    by (simp add: is_grid_point_def THRESHOLDS_list)
  have h: "hd (cells zero_rows) = (100, 32, 0)"
    unfolding z by (simp add: cells_def row_cells_def DELAYS_def)
  have m: "map fst zero_rows = [100, 125, 150, 175, 200, 225, 250, 275, 300]"
    and v: "snd (hd zero_rows) = [0, 0, 0, 0, 0, 0, 0, 0, 0]"
    unfolding z by simp_all
  show ?thesis using s g h m v by simp
qed

section \<open>Variant generation\<close>

subsection \<open>Matches and the two scans\<close>

lemma match_len_le:
  "match_len p s = Some n \<Longrightarrow> n \<le> length s"
  "rep_back r s k = Some n \<Longrightarrow> k \<le> length s \<Longrightarrow> n \<le> length s"
proof (induction p s and r s k arbitrary: n and n rule: match_len_rep_back.induct)
  case (1 s)
  then show ?case by simp
next
  case (2 c r s)
  then show ?case by (auto split: list.splits if_splits)
next
  case (3 r s)
  then show ?case by (auto split: list.splits if_splits)
next
  case (4 k r s)
  then show ?case by (simp add: length_takeWhile_le)
next
  case (5 r s)
  then show ?case by simp
next
  case (6 r s j)
  show ?case
  proof (cases "match_len r (drop (Suc j) s)")
    case None
    with 6(2) [OF None] 6(3,4) show ?thesis by simp
  next
    case (Some m)
    with 6(1) [OF Some] have "m \<le> length s - Suc j" by simp
    with 6(3,4) Some show ?thesis by auto
  qed
qed

lemma match_len_lits:
  "match_len (lits L) s = (if prefix L s then Some (length L) else None)"
  by (induction L arbitrary: s) (auto simp: lits_def split: list.splits)

lemma rep_back_Nil: "rep_back [] s n = (if n = 0 then None else Some n)"
  by (cases n) simp_all

lemma match_len_directive:
  "match_len (lits L @ [Rep1 k]) s =
     (if prefix L s \<and> takeWhile (in_class k) (drop (length L) s) \<noteq> []
      then Some (length L + length (takeWhile (in_class k) (drop (length L) s))) else None)"
proof (induction L arbitrary: s)
  case Nil
  then show ?case by (simp add: lits_def rep_back_Nil)
next
  case (Cons c L)
  then show ?case by (cases s) (auto simp: lits_def)
qed

lemma match_len_wildcard:
  "match_len (lits A @ AnyChar # lits B) s =
     (if prefix A s \<and> (\<exists>x rest. drop (length A) s = x # rest \<and> x \<noteq> CHR 0x0A \<and> prefix B rest)
      then Some (length A + 1 + length B) else None)"
proof (induction A arbitrary: s)
  case Nil
  then show ?case by (cases s) (auto simp: lits_def match_len_lits [unfolded lits_def])
next
  case (Cons c A)
  then show ?case by (cases s) (auto simp: lits_def)
qed

lemma findall_scan_skip:
  "k \<le> length s \<Longrightarrow> findall_scan p k s = findall_scan p 0 (drop k s)"
proof (induction k arbitrary: s)
  case 0
  then show ?case by simp
next
  case (Suc k)
  then show ?case by (cases s) simp_all
qed

lemma sub_scan_skip:
  "k \<le> length s \<Longrightarrow> sub_scan p r k s = sub_scan p r 0 (drop k s)"
proof (induction k arbitrary: s)
  case 0
  then show ?case by simp
next
  case (Suc k)
  then show ?case by (cases s) simp_all
qed

lemma re_findall_miss:
  "match_len p (c # cs) = None \<Longrightarrow> re_findall p (c # cs) = re_findall p cs"
  by (simp add: re_findall_def)

lemma re_sub_miss:
  "match_len p (c # cs) = None \<Longrightarrow> re_sub p r (c # cs) = c # re_sub p r cs"
  by (simp add: re_sub_def)

lemma re_findall_hit:
  assumes "match_len p s = Some n" and "0 < n"
  shows "re_findall p s = take n s # re_findall p (drop n s)"
proof -
  from assms obtain k where n: "n = Suc k" by (cases n) auto
  from match_len_le(1) [OF assms(1)] n obtain c cs where s: "s = c # cs" and k: "k \<le> length cs"
    by (cases s) auto
  show ?thesis
    using assms(1) findall_scan_skip [OF k, of p] unfolding n s re_findall_def by simp
qed

lemma re_sub_hit:
  assumes "match_len p s = Some n" and "0 < n"
  shows "re_sub p r s = r @ re_sub p r (drop n s)"
proof -
  from assms obtain k where n: "n = Suc k" by (cases n) auto
  from match_len_le(1) [OF assms(1)] n obtain c cs where s: "s = c # cs" and k: "k \<le> length cs"
    by (cases s) auto
  show ?thesis
    using assms(1) sub_scan_skip [OF k, of p r] unfolding n s re_sub_def by simp
qed

lemma re_findall_skip:
  "(\<And>i. i < n \<Longrightarrow> match_len q (drop i s) = None) \<Longrightarrow> n \<le> length s \<Longrightarrow>
   re_findall q s = re_findall q (drop n s)"
proof (induction n arbitrary: s)
  case 0
  then show ?case by simp
next
  case (Suc n)
  from Suc.prems(2) obtain c cs where s: "s = c # cs" by (cases s) auto
  have "match_len q (c # cs) = None" using Suc.prems(1) [of 0] s by simp
  then have "re_findall q s = re_findall q cs" unfolding s by (rule re_findall_miss)
  also have "\<dots> = re_findall q (drop n cs)"
  proof (rule Suc.IH)
    fix i assume "i < n"
    then show "match_len q (drop i cs) = None" using Suc.prems(1) [of "Suc i"] s by simp
  next
    show "n \<le> length cs" using Suc.prems(2) s by simp
  qed
  finally show ?case using s by simp
qed

lemma re_sub_copy:
  "(\<And>i. i < n \<Longrightarrow> match_len p (drop i s) = None) \<Longrightarrow> n \<le> length s \<Longrightarrow>
   re_sub p r s = take n s @ re_sub p r (drop n s)"
proof (induction n arbitrary: s)
  case 0
  then show ?case by simp
next
  case (Suc n)
  from Suc.prems(2) obtain c cs where s: "s = c # cs" by (cases s) auto
  have "match_len p (c # cs) = None" using Suc.prems(1) [of 0] s by simp
  then have "re_sub p r s = c # re_sub p r cs" unfolding s by (rule re_sub_miss)
  also have "re_sub p r cs = take n cs @ re_sub p r (drop n cs)"
  proof (rule Suc.IH)
    fix i assume "i < n"
    then show "match_len p (drop i cs) = None" using Suc.prems(1) [of "Suc i"] s by simp
  next
    show "n \<le> length cs" using Suc.prems(2) s by simp
  qed
  finally show ?case using s by simp
qed

lemma re_findall_Nil: "match_len q [] = None \<Longrightarrow> re_findall q [] = []"
  by (simp add: re_findall_def)

lemma re_sub_Nil: "match_len p [] = None \<Longrightarrow> re_sub p r [] = []"
  by (simp add: re_sub_def)

lemma no_empty_match:
  assumes "\<And>u n. match_len p u = Some n \<Longrightarrow> 0 < n"
  shows "match_len p [] = None"
proof (cases "match_len p []")
  case None
  then show ?thesis .
next
  case (Some n)
  with assms [OF Some] match_len_le(1) [OF Some] show ?thesis by simp
qed

lemma re_findall_none:
  assumes "\<And>i. i \<le> length s \<Longrightarrow> match_len q (drop i s) = None"
  shows "re_findall q s = []"
proof -
  have "re_findall q s = re_findall q (drop (length s) s)"
    using assms by (intro re_findall_skip) simp_all
  moreover have "match_len q [] = None" using assms [of "length s"] by simp
  ultimately show ?thesis by (simp add: re_findall_Nil)
qed

lemma re_sub_none:
  assumes "\<And>i. i \<le> length s \<Longrightarrow> match_len p (drop i s) = None"
  shows "re_sub p r s = s"
proof -
  have "re_sub p r s = take (length s) s @ re_sub p r (drop (length s) s)"
    using assms by (intro re_sub_copy) simp_all
  moreover have "match_len p [] = None" using assms [of "length s"] by simp
  ultimately show ?thesis by (simp add: re_sub_Nil)
qed

subsection \<open>A substitution and the matches of a pattern\<close>

text \<open>
  The matches of \<open>p\<close> all start with the text \<open>H\<close>, and so does the replacement. A pattern
  \<open>q\<close> whose match at a place before an \<open>H\<close> does not depend on what follows the \<open>H\<close> finds
  the same matches before and after the substitution, when none of its matches starts
  inside a match of \<open>p\<close> or inside the replacement.
\<close>

lemma re_findall_split:
  assumes pos: "\<And>u n. match_len q u = Some n \<Longrightarrow> 0 < n"
    and stop: "\<And>w X. w \<noteq> [] \<Longrightarrow> match_len q (w @ H @ X) = match_len q w"
  shows "re_findall q (w @ H @ X) = re_findall q w @ re_findall q (H @ X)"
proof (induction "length w" arbitrary: w rule: less_induct)
  case less
  show ?case
  proof (cases w)
    case Nil
    then show ?thesis by (simp add: re_findall_Nil no_empty_match [of q, OF pos])
  next
    case (Cons c w')
    then have ne: "w \<noteq> []" by simp
    show ?thesis
    proof (cases "match_len q w")
      case None
      then have "match_len q (c # (w' @ H @ X)) = None"
        using stop [OF ne, of X] Cons by simp
      then have "re_findall q (w @ H @ X) = re_findall q (w' @ H @ X)"
        unfolding Cons by (simp add: re_findall_miss)
      moreover have "re_findall q w = re_findall q w'"
        using None unfolding Cons by (rule re_findall_miss)
      moreover have "re_findall q (w' @ H @ X) = re_findall q w' @ re_findall q (H @ X)"
        by (rule less) (simp add: Cons)
      ultimately show ?thesis by simp
    next
      case (Some n)
      have n: "0 < n" "n \<le> length w"
        using pos [OF Some] match_len_le(1) [OF Some] by simp_all
      have "match_len q (w @ H @ X) = Some n" using stop [OF ne, of X] Some by simp
      then have "re_findall q (w @ H @ X) = take n (w @ H @ X) # re_findall q (drop n (w @ H @ X))"
        using n(1) by (rule re_findall_hit)
      then have a: "re_findall q (w @ H @ X) = take n w # re_findall q (drop n w @ H @ X)"
        using n(2) by simp
      have b: "re_findall q w = take n w # re_findall q (drop n w)"
        using Some n(1) by (rule re_findall_hit)
      have "re_findall q (drop n w @ H @ X) = re_findall q (drop n w) @ re_findall q (H @ X)"
        using n ne by (intro less) simp
      with a b show ?thesis by simp
    qed
  qed
qed

lemma first_match_cases:
  obtains (none) "\<And>j. j \<le> length s \<Longrightarrow> match_len p (drop j s) = None"
  | (first) i n where "i \<le> length s" "match_len p (drop i s) = Some n"
      "\<And>j. j < i \<Longrightarrow> match_len p (drop j s) = None"
proof (cases "re_search p s")
  case None
  then show ?thesis using none by (simp add: re_search_None_iff)
next
  case (Some a)
  obtain i n where "a = (i, n)" by (cases a)
  with Some show ?thesis using first [of i n] by (simp add: re_search_Some_iff)
qed

lemma re_findall_sub_other:
  assumes p_pos: "\<And>u n. match_len p u = Some n \<Longrightarrow> 0 < n"
    and p_head: "\<And>u n. match_len p u = Some n \<Longrightarrow> prefix H u"
    and r_head: "prefix H r"
    and q_pos: "\<And>u n. match_len q u = Some n \<Longrightarrow> 0 < n"
    and q_stop: "\<And>w X. w \<noteq> [] \<Longrightarrow> match_len q (w @ H @ X) = match_len q w"
    and inside_match: "\<And>u n i. match_len p u = Some n \<Longrightarrow> i < n \<Longrightarrow> match_len q (drop i u) = None"
    and inside_repl: "\<And>i Z. i < length r \<Longrightarrow> match_len q (drop i r @ Z) = None"
  shows "re_findall q (re_sub p r s) = re_findall q s"
proof (induction "length s" arbitrary: s rule: less_induct)
  case less
  show ?case
  proof (cases rule: first_match_cases [of s p])
    case none
    then have "re_sub p r s = s" by (rule re_sub_none)
    then show ?thesis by simp
  next
    case (first i n)
    define w u b where "w = take i s" and "u = drop i s" and "b = drop n u"
    have s: "s = w @ u" by (simp add: w_def u_def)
    have m: "match_len p u = Some n" using first(2) by (simp add: u_def)
    have n: "0 < n" "n \<le> length u" using p_pos [OF m] match_len_le(1) [OF m] by simp_all
    obtain Y where u: "u = H @ Y" using p_head [OF m] by (auto elim: prefixE)
    obtain r' where r: "r = H @ r'" using r_head by (auto elim: prefixE)
    have "re_sub p r s = take i s @ re_sub p r (drop i s)"
      using first(3,1) by (rule re_sub_copy)
    also have "re_sub p r (drop i s) = r @ re_sub p r b"
      using re_sub_hit [OF m n(1)] by (simp add: u_def b_def)
    finally have sub: "re_sub p r s = w @ H @ r' @ re_sub p r b"
      by (simp add: w_def r)
    have "re_findall q (re_sub p r s) = re_findall q w @ re_findall q (H @ r' @ re_sub p r b)"
      unfolding sub using q_pos q_stop by (rule re_findall_split)
    also have "re_findall q (H @ r' @ re_sub p r b) = re_findall q (r @ re_sub p r b)"
      by (simp add: r)
    also have "\<dots> = re_findall q (drop (length r) (r @ re_sub p r b))"
      using inside_repl by (intro re_findall_skip) simp_all
    also have "\<dots> = re_findall q (re_sub p r b)" by simp
    also have "\<dots> = re_findall q b"
      using n by (intro less) (simp add: b_def s)
    finally have lhs: "re_findall q (re_sub p r s) = re_findall q w @ re_findall q b" .
    have "re_findall q s = re_findall q w @ re_findall q (H @ Y)"
      unfolding s u using q_pos q_stop by (rule re_findall_split)
    also have "re_findall q (H @ Y) = re_findall q (drop n u)"
      unfolding u [symmetric] using inside_match [OF m] n(2) by (intro re_findall_skip) simp_all
    finally have "re_findall q s = re_findall q w @ re_findall q b" by (simp add: b_def)
    with lhs show ?thesis by simp
  qed
qed

lemma no_match_before:
  assumes stop: "\<And>w X. w \<noteq> [] \<Longrightarrow> match_len p (w @ H @ X) = match_len p w"
    and pos: "\<And>u n. match_len p u = Some n \<Longrightarrow> 0 < n"
    and none: "\<And>j. j < length w \<Longrightarrow> match_len p (drop j (w @ H @ Y)) = None"
  shows "re_findall p w = []"
proof (rule re_findall_none)
  fix i assume i: "i \<le> length w"
  show "match_len p (drop i w) = None"
  proof (cases "i < length w")
    case True
    then have "drop i w \<noteq> []" by simp
    from stop [OF this, of Y] none [OF True] True show ?thesis by simp
  next
    case False
    with i show ?thesis by (simp add: no_empty_match [of p, OF pos])
  qed
qed

lemma re_findall_sub_none:
  assumes p_pos: "\<And>u n. match_len p u = Some n \<Longrightarrow> 0 < n"
    and p_head: "\<And>u n. match_len p u = Some n \<Longrightarrow> prefix H u"
    and r_head: "prefix H r"
    and p_stop: "\<And>w X. w \<noteq> [] \<Longrightarrow> match_len p (w @ H @ X) = match_len p w"
    and inside_repl: "\<And>i Z. i < length r \<Longrightarrow> match_len p (drop i r @ Z) = None"
  shows "re_findall p (re_sub p r s) = []"
proof (induction "length s" arbitrary: s rule: less_induct)
  case less
  show ?case
  proof (cases rule: first_match_cases [of s p])
    case none
    then have "re_sub p r s = s" by (rule re_sub_none)
    moreover have "re_findall p s = []" using none by (rule re_findall_none)
    ultimately show ?thesis by simp
  next
    case (first i n)
    define w u b where "w = take i s" and "u = drop i s" and "b = drop n u"
    have s: "s = w @ u" by (simp add: w_def u_def)
    have i: "length w = i" using first(1) by (simp add: w_def)
    have m: "match_len p u = Some n" using first(2) by (simp add: u_def)
    have n: "0 < n" "n \<le> length u" using p_pos [OF m] match_len_le(1) [OF m] by simp_all
    obtain Y where u: "u = H @ Y" using p_head [OF m] by (auto elim: prefixE)
    obtain r' where r: "r = H @ r'" using r_head by (auto elim: prefixE)
    have "re_sub p r s = take i s @ re_sub p r (drop i s)"
      using first(3,1) by (rule re_sub_copy)
    also have "re_sub p r (drop i s) = r @ re_sub p r b"
      using re_sub_hit [OF m n(1)] by (simp add: u_def b_def)
    finally have sub: "re_sub p r s = w @ H @ r' @ re_sub p r b"
      by (simp add: w_def r)
    have w: "re_findall p w = []"
    proof (rule no_match_before [OF p_stop p_pos])
      fix j assume "j < length w"
      then show "match_len p (drop j (w @ H @ Y)) = None"
        using first(3) [of j] i unfolding s u by simp
    qed
    have "re_findall p (re_sub p r s) = re_findall p w @ re_findall p (H @ r' @ re_sub p r b)"
      unfolding sub using p_pos p_stop by (rule re_findall_split)
    also have "re_findall p (H @ r' @ re_sub p r b) = re_findall p (r @ re_sub p r b)"
      by (simp add: r)
    also have "\<dots> = re_findall p (drop (length r) (r @ re_sub p r b))"
      using inside_repl by (intro re_findall_skip) simp_all
    also have "\<dots> = re_findall p (re_sub p r b)" by simp
    also have "\<dots> = []"
      using n by (intro less) (simp add: b_def s)
    finally show ?thesis using w by simp
  qed
qed

lemma re_sub_same_head:
  assumes p_pos: "\<And>u n. match_len p u = Some n \<Longrightarrow> 0 < n"
    and p_head: "\<And>u n. match_len p u = Some n \<Longrightarrow> prefix H u"
    and r_head: "prefix H r" and H: "H \<noteq> []"
  shows "(re_sub p r b = [] \<longleftrightarrow> b = []) \<and> (b \<noteq> [] \<longrightarrow> hd (re_sub p r b) = hd b)"
proof (cases b)
  case Nil
  then show ?thesis by (simp add: re_sub_Nil no_empty_match [of p, OF p_pos])
next
  case (Cons c cs)
  show ?thesis
  proof (cases "match_len p b")
    case None
    then show ?thesis unfolding Cons by (simp add: re_sub_miss)
  next
    case (Some n)
    obtain Y where u: "b = H @ Y" using p_head [OF Some] by (auto elim: prefixE)
    obtain r' where r: "r = H @ r'" using r_head by (auto elim: prefixE)
    have "re_sub p r b = r @ re_sub p r (drop n b)"
      using Some p_pos [OF Some] by (rule re_sub_hit)
    then show ?thesis using H Cons u r by (cases H) auto
  qed
qed

lemma re_findall_sub_self:
  assumes p_pos: "\<And>u n. match_len p u = Some n \<Longrightarrow> 0 < n"
    and p_head: "\<And>u n. match_len p u = Some n \<Longrightarrow> prefix H u"
    and r_head: "prefix H r" and H: "H \<noteq> []"
    and p_stop: "\<And>w X. w \<noteq> [] \<Longrightarrow> match_len p (w @ H @ X) = match_len p w"
    and again: "\<And>u n Z. match_len p u = Some n \<Longrightarrow> (Z = [] \<longleftrightarrow> drop n u = []) \<Longrightarrow>
                  (drop n u \<noteq> [] \<longrightarrow> hd Z = hd (drop n u)) \<Longrightarrow>
                  match_len p (r @ Z) = Some (length r)"
  shows "re_findall p (re_sub p r s) = map (\<lambda>m. r) (re_findall p s)"
proof (induction "length s" arbitrary: s rule: less_induct)
  case less
  show ?case
  proof (cases rule: first_match_cases [of s p])
    case none
    then have "re_sub p r s = s" by (rule re_sub_none)
    moreover have "re_findall p s = []" using none by (rule re_findall_none)
    ultimately show ?thesis by simp
  next
    case (first i n)
    define w u b where "w = take i s" and "u = drop i s" and "b = drop n u"
    have s: "s = w @ u" by (simp add: w_def u_def)
    have i: "length w = i" using first(1) by (simp add: w_def)
    have m: "match_len p u = Some n" using first(2) by (simp add: u_def)
    have n: "0 < n" "n \<le> length u" using p_pos [OF m] match_len_le(1) [OF m] by simp_all
    obtain Y where u: "u = H @ Y" using p_head [OF m] by (auto elim: prefixE)
    obtain r' where r: "r = H @ r'" using r_head by (auto elim: prefixE)
    have rne: "0 < length r" using r H by simp
    have "re_sub p r s = take i s @ re_sub p r (drop i s)"
      using first(3,1) by (rule re_sub_copy)
    also have "re_sub p r (drop i s) = r @ re_sub p r b"
      using re_sub_hit [OF m n(1)] by (simp add: u_def b_def)
    finally have sub: "re_sub p r s = w @ H @ r' @ re_sub p r b"
      by (simp add: w_def r)
    have w: "re_findall p w = []"
    proof (rule no_match_before [OF p_stop p_pos])
      fix j assume "j < length w"
      then show "match_len p (drop j (w @ H @ Y)) = None"
        using first(3) [of j] i unfolding s u by simp
    qed
    have sh: "(re_sub p r b = [] \<longleftrightarrow> b = []) \<and> (b \<noteq> [] \<longrightarrow> hd (re_sub p r b) = hd b)"
      using p_pos p_head r_head H by (rule re_sub_same_head)
    have mr: "match_len p (r @ re_sub p r b) = Some (length r)"
      using sh by (intro again [OF m]) (simp_all add: b_def)
    have "re_findall p (re_sub p r s) = re_findall p w @ re_findall p (H @ r' @ re_sub p r b)"
      unfolding sub using p_pos p_stop by (rule re_findall_split)
    also have "re_findall p (H @ r' @ re_sub p r b) = re_findall p (r @ re_sub p r b)"
      by (simp add: r)
    also have "\<dots> = take (length r) (r @ re_sub p r b)
                      # re_findall p (drop (length r) (r @ re_sub p r b))"
      using mr rne by (rule re_findall_hit)
    also have "\<dots> = r # re_findall p (re_sub p r b)" by simp
    also have "re_findall p (re_sub p r b) = map (\<lambda>m. r) (re_findall p b)"
      using n by (intro less) (simp add: b_def s)
    finally have lhs: "re_findall p (re_sub p r s) = r # map (\<lambda>m. r) (re_findall p b)"
      using w by simp
    have "re_findall p s = re_findall p w @ re_findall p (H @ Y)"
      unfolding s u using p_pos p_stop by (rule re_findall_split)
    also have "re_findall p (H @ Y) = take n u # re_findall p (drop n u)"
      unfolding u [symmetric] using m n(1) by (rule re_findall_hit)
    finally have "re_findall p s = take n u # re_findall p b" using w by (simp add: b_def)
    with lhs show ?thesis by simp
  qed
qed

subsection \<open>Directives: a literal text and a run of digits\<close>

lemma directive_pos: "match_len (lits L @ [Rep1 k]) u = Some n \<Longrightarrow> 0 < n"
  by (auto simp: match_len_directive split: if_splits)

lemma directive_head: "match_len (lits L @ [Rep1 k]) u = Some n \<Longrightarrow> prefix L u"
  by (auto simp: match_len_directive split: if_splits)

lemma takeWhile_stop: "\<not> P h \<Longrightarrow> takeWhile P (v @ h # X) = takeWhile P v"
  by (induction v) simp_all

lemma prefix_stop:
  assumes "w \<noteq> []" and "h \<notin> set (tl L)"
  shows "prefix L (w @ h # X) \<longleftrightarrow> prefix L w"
proof
  assume "prefix L w"
  then show "prefix L (w @ h # X)" by (rule prefix_prefix)
next
  assume "prefix L (w @ h # X)"
  then consider "prefix L w" | us where "L = w @ us" "prefix us (h # X)"
    by (auto simp: prefix_append)
  then show "prefix L w"
  proof cases
    case 1
    then show ?thesis .
  next
    case 2
    show ?thesis
    proof (cases us)
      case Nil
      with 2 show ?thesis by simp
    next
      case (Cons x us')
      with 2(2) have "x = h" by simp
      with 2(1) Cons assms(1) have "h \<in> set (tl L)" by (cases w) auto
      with assms(2) show ?thesis by blast
    qed
  qed
qed

lemma directive_stop:
  assumes "h \<notin> set (tl L)" and "\<not> in_class k h" and "w \<noteq> []"
  shows "match_len (lits L @ [Rep1 k]) (w @ [h] @ X) = match_len (lits L @ [Rep1 k]) w"
proof (cases "prefix L w")
  case True
  then have p: "prefix L (w @ h # X)" by (rule prefix_prefix)
  have "length L \<le> length w" using True by (rule prefix_length_le)
  then have "drop (length L) (w @ h # X) = drop (length L) w @ h # X" by simp
  then have "takeWhile (in_class k) (drop (length L) (w @ h # X))
               = takeWhile (in_class k) (drop (length L) w)"
    using assms(2) by (simp add: takeWhile_stop)
  with True p show ?thesis by (simp add: match_len_directive)
next
  case False
  then have "\<not> prefix L (w @ h # X)" using prefix_stop [OF assms(3,1)] by simp
  with False show ?thesis by (simp add: match_len_directive)
qed

lemma directive_none_inside:
  assumes "L \<noteq> []" and "hd L \<notin> set m" and "i < length m"
  shows "match_len (lits L @ [Rep1 k]) (drop i m @ Z) = None"
proof -
  obtain x xs where d: "drop i m = x # xs" using assms(3) by (cases "drop i m") auto
  have "x \<in> set (drop i m)" unfolding d by simp
  then have "x \<in> set m" by (rule in_set_dropD)
  with assms(2) have "x \<noteq> hd L" by blast
  then have "\<not> prefix L (drop i m @ Z)" using assms(1) unfolding d by (cases L) auto
  then show ?thesis by (simp add: match_len_directive)
qed

lemma directive_none_after_head:
  assumes "L \<noteq> []" and "hd L \<notin> set (tl m)"
    and "match_len (lits L @ [Rep1 k]) (m @ Z) = None" and "i < length m"
  shows "match_len (lits L @ [Rep1 k]) (drop i m @ Z) = None"
proof (cases i)
  case 0
  with assms(3) show ?thesis by simp
next
  case (Suc j)
  with assms(4) obtain x m' where m: "m = x # m'" by (cases m) auto
  have "match_len (lits L @ [Rep1 k]) (drop j m' @ Z) = None"
    using assms(1,2,4) Suc m by (intro directive_none_inside) simp_all
  then show ?thesis using Suc m by simp
qed

lemma directive_text:
  assumes "match_len (lits L @ [Rep1 k]) u = Some n"
  shows "\<exists>tw rest. u = L @ tw @ rest \<and> tw \<noteq> [] \<and> (\<forall>c\<in>set tw. in_class k c) \<and>
           n = length L + length tw \<and> (rest = [] \<or> \<not> in_class k (hd rest))"
proof -
  let ?d = "drop (length L) u"
  let ?tw = "takeWhile (in_class k) ?d" and ?rest = "dropWhile (in_class k) ?d"
  from assms have p: "prefix L u" and t: "?tw \<noteq> []" and n: "n = length L + length ?tw"
    by (auto simp: match_len_directive split: if_splits)
  from p obtain v where "u = L @ v" by (auto elim: prefixE)
  then have "u = L @ ?d" by simp
  then have "u = L @ ?tw @ ?rest" by simp
  moreover have "\<forall>c\<in>set ?tw. in_class k c" by (auto dest: set_takeWhileD)
  moreover have "?rest = [] \<or> \<not> in_class k (hd ?rest)"
    using hd_dropWhile [of "in_class k" ?d] by blast
  ultimately show ?thesis using t n by blast
qed

lemma directive_inside_other:
  assumes m: "match_len (lits L @ [Rep1 k]) u = Some n"
    and g: "M \<noteq> []" "hd M \<notin> set (tl L)" "\<not> in_class k (hd M)"
    and other: "\<not> (prefix L u \<and> prefix M u)"
    and i: "i < n"
  shows "match_len (lits M @ [Rep1 k']) (drop i u) = None"
proof -
  from directive_text [OF m] obtain tw rest where
    u: "u = L @ tw @ rest" and tw: "\<forall>c\<in>set tw. in_class k c" and n: "n = length L + length tw"
    by blast
  have "prefix L u" using m by (rule directive_head)
  with other have "\<not> prefix M u" by blast
  then have z: "match_len (lits M @ [Rep1 k']) ((L @ tw) @ rest) = None"
    using u by (simp add: match_len_directive)
  have "set (tl tw) \<subseteq> set tw" by (cases tw) auto
  then have "hd M \<notin> set (tl tw)" using g(3) tw by blast
  then have "hd M \<notin> set (tl (L @ tw))"
    using g(2,3) tw by (cases L) auto
  from directive_none_after_head [OF g(1) this z, of i] i n
  have "match_len (lits M @ [Rep1 k']) (drop i (L @ tw) @ rest) = None" by simp
  moreover have "drop i u = drop i (L @ tw) @ rest"
    using i n unfolding u by simp
  ultimately show ?thesis by simp
qed

lemma directive_again:
  assumes r: "r = L @ ds" "ds \<noteq> []" "\<forall>c\<in>set ds. in_class k c"
    and m: "match_len (lits L @ [Rep1 k]) u = Some n"
    and z: "Z = [] \<longleftrightarrow> drop n u = []" "drop n u \<noteq> [] \<longrightarrow> hd Z = hd (drop n u)"
  shows "match_len (lits L @ [Rep1 k]) (r @ Z) = Some (length r)"
proof -
  from directive_text [OF m] obtain tw rest where
    u: "u = L @ tw @ rest" and n: "n = length L + length tw"
    and rest: "rest = [] \<or> \<not> in_class k (hd rest)"
    by blast
  have "drop n u = rest" unfolding u n by simp
  with z rest have "Z = [] \<or> \<not> in_class k (hd Z)" by auto
  then have "takeWhile (in_class k) Z = []" by (cases Z) auto
  then have "takeWhile (in_class k) (ds @ Z) = ds"
    using r(3) by (simp add: takeWhile_append2)
  then show ?thesis
    using r(1,2) by (simp add: match_len_directive)
qed

subsection \<open>The include pattern and the placeholder\<close>

lemma wildcard_pos: "match_len (lits A @ AnyChar # lits B) u = Some n \<Longrightarrow> 0 < n"
  by (auto simp: match_len_wildcard split: if_splits)

lemma wildcard_head: "match_len (lits A @ AnyChar # lits B) u = Some n \<Longrightarrow> prefix A u"
  by (auto simp: match_len_wildcard split: if_splits)

lemma wildcard_inside_directive:
  assumes m: "match_len (lits A @ AnyChar # lits B) u = Some n"
    and M: "M = g # g2 # M'"
    and A: "g \<notin> set (tl A)" "\<And>Z. \<not> prefix M (A @ Z)"
    and B: "g \<notin> set B" "B \<noteq> []" "hd B \<noteq> g2"
    and i: "i < n"
  shows "match_len (lits M @ [Rep1 k]) (drop i u) = None"
proof -
  from m obtain x rest where p: "prefix A u" and d: "drop (length A) u = x # rest"
    and b: "prefix B rest" and n: "n = length A + 1 + length B"
    by (auto simp: match_len_wildcard split: if_splits)
  from p obtain v where "u = A @ v" by (auto elim: prefixE)
  with d have "u = A @ x # rest" by simp
  moreover from b obtain rest' where "rest = B @ rest'" by (auto elim: prefixE)
  ultimately have u: "u = A @ x # B @ rest'" by simp
  have Mne: "M \<noteq> []" and hM: "hd M = g" using M by simp_all
  consider "i < length A" | "i = length A" | "length A < i" by linarith
  then show ?thesis
  proof cases
    case 1
    have "match_len (lits M @ [Rep1 k]) (A @ x # B @ rest') = None"
      using A(2) [of "x # B @ rest'"] by (simp add: match_len_directive)
    from directive_none_after_head [OF Mne _ this 1] A(1) hM
    have "match_len (lits M @ [Rep1 k]) (drop i A @ x # B @ rest') = None" by simp
    moreover have "drop i u = drop i A @ x # B @ rest'" using 1 unfolding u by simp
    ultimately show ?thesis by simp
  next
    case 2
    then have "drop i u = x # B @ rest'" unfolding u by simp
    moreover have "\<not> prefix M (x # B @ rest')"
      using B(2,3) unfolding M by (cases B) auto
    ultimately show ?thesis by (simp add: match_len_directive)
  next
    case 3
    define j where "j = i - Suc (length A)"
    have j: "j < length B" using 3 i n by (simp add: j_def)
    have "drop i u = drop j B @ rest'"
      using 3 j unfolding u j_def by (simp add: drop_Cons')
    moreover have "match_len (lits M @ [Rep1 k]) (drop j B @ rest') = None"
      using Mne _ j by (rule directive_none_inside) (simp add: hM B(1))
    ultimately show ?thesis by simp
  qed
qed

lemma literal_pos: "T \<noteq> [] \<Longrightarrow> match_len (lits T) u = Some n \<Longrightarrow> 0 < n"
  by (auto simp: match_len_lits split: if_splits)

lemma literal_head: "match_len (lits T) u = Some n \<Longrightarrow> prefix T u"
  by (auto simp: match_len_lits split: if_splits)

lemma literal_inside_directive:
  assumes m: "match_len (lits T) u = Some n"
    and M: "M \<noteq> []" "hd M \<notin> set T"
    and i: "i < n"
  shows "match_len (lits M @ [Rep1 k]) (drop i u) = None"
proof -
  from m have p: "prefix T u" and n: "n = length T"
    by (auto simp: match_len_lits split: if_splits)
  from p obtain rest where u: "u = T @ rest" by (auto elim: prefixE)
  have "match_len (lits M @ [Rep1 k]) (drop i T @ rest) = None"
    using M i n by (intro directive_none_inside) simp_all
  moreover have "drop i u = drop i T @ rest" using i n unfolding u by simp
  ultimately show ?thesis by simp
qed

lemma literal_stop:
  assumes border: "\<And>k. 0 < k \<Longrightarrow> k < length T \<Longrightarrow> \<not> prefix (take (length H) (drop k T)) H"
    and w: "w \<noteq> []"
  shows "match_len (lits T) (w @ H @ X) = match_len (lits T) w"
proof -
  have "prefix T (w @ H @ X) \<longleftrightarrow> prefix T w"
  proof
    assume "prefix T w"
    then show "prefix T (w @ H @ X)" by (rule prefix_prefix)
  next
    assume "prefix T (w @ H @ X)"
    then consider "prefix T w" | us where "T = w @ us" "prefix us (H @ X)"
      by (auto simp: prefix_append)
    then show "prefix T w"
    proof cases
      case 1
      then show ?thesis .
    next
      case 2
      show ?thesis
      proof (cases us)
        case Nil
        with 2 show ?thesis by simp
      next
        case (Cons x us')
        have k: "0 < length w" "length w < length T" using w 2(1) Cons by simp_all
        have d: "drop (length w) T = us" using 2(1) by simp
        have "prefix (take (length H) us) us" by (rule take_is_prefix)
        then have "prefix (take (length H) us) (H @ X)" using 2(2) by (rule prefix_order.trans)
        moreover have "prefix H (H @ X)" by simp
        ultimately have "prefix (take (length H) us) H"
          by (rule prefix_length_prefix) simp
        with border [OF k] d show ?thesis by simp
      qed
    qed
  qed
  then show ?thesis by (simp add: match_len_lits)
qed

lemma literal_none_short:
  assumes "\<not> prefix v T" and "length v \<le> length T"
  shows "match_len (lits T) (v @ Z) = None"
proof -
  have "\<not> prefix T (v @ Z)"
  proof
    assume t: "prefix T (v @ Z)"
    have "prefix v (v @ Z)" by simp
    from this t assms(2) have "prefix v T" by (rule prefix_length_prefix)
    with assms(1) show False by blast
  qed
  then show ?thesis by (simp add: match_len_lits)
qed

lemma directive_sub_other:
  assumes L: "L = g # L'" "g \<notin> set L'" and M: "M = g # M'" "g \<notin> set M'"
    and g: "\<not> in_class k g"
    and differ: "\<And>u. \<not> (prefix L u \<and> prefix M u)"
    and ds: "\<forall>c\<in>set ds. in_class k c"
  shows "re_findall (lits M @ [Rep1 k]) (re_sub (lits L @ [Rep1 k]) (L @ ds) s)
           = re_findall (lits M @ [Rep1 k]) s"
proof (rule re_findall_sub_other [where H = "[g]"])
  show "\<And>u n. match_len (lits L @ [Rep1 k]) u = Some n \<Longrightarrow> 0 < n" by (rule directive_pos)
  show "\<And>u n. match_len (lits M @ [Rep1 k]) u = Some n \<Longrightarrow> 0 < n" by (rule directive_pos)
  show "prefix [g] (L @ ds)" by (simp add: L)
next
  fix u n assume "match_len (lits L @ [Rep1 k]) u = Some n"
  then have "prefix L u" by (rule directive_head)
  moreover have "prefix [g] L" by (simp add: L)
  ultimately show "prefix [g] u" by (rule prefix_order.trans [rotated])
next
  fix w X assume "w \<noteq> ([]::string)"
  with g M show "match_len (lits M @ [Rep1 k]) (w @ [g] @ X) = match_len (lits M @ [Rep1 k]) w"
    by (intro directive_stop) simp_all
next
  fix u n i assume "match_len (lits L @ [Rep1 k]) u = Some n" "i < n"
  then show "match_len (lits M @ [Rep1 k]) (drop i u) = None"
    using L M g differ [of u] by (intro directive_inside_other [where L = L and n = n]) simp_all
next
  fix i Z assume i: "i < length (L @ ds)"
  have "\<not> prefix M ((L @ ds) @ Z)" using differ [of "(L @ ds) @ Z"] by simp
  then have z: "match_len (lits M @ [Rep1 k]) ((L @ ds) @ Z) = None"
    by (simp add: match_len_directive)
  have "hd M \<notin> set (tl (L @ ds))" using L M g ds by auto
  with M(1) show "match_len (lits M @ [Rep1 k]) (drop i (L @ ds) @ Z) = None"
    using z i by (intro directive_none_after_head) simp_all
qed

lemma directive_sub_self:
  assumes L: "L = g # L'" "g \<notin> set L'" and g: "\<not> in_class k g"
    and ds: "ds \<noteq> []" "\<forall>c\<in>set ds. in_class k c"
  shows "re_findall (lits L @ [Rep1 k]) (re_sub (lits L @ [Rep1 k]) (L @ ds) s)
           = map (\<lambda>m. L @ ds) (re_findall (lits L @ [Rep1 k]) s)"
proof (rule re_findall_sub_self [where H = "[g]"])
  show "\<And>u n. match_len (lits L @ [Rep1 k]) u = Some n \<Longrightarrow> 0 < n" by (rule directive_pos)
  show "prefix [g] (L @ ds)" by (simp add: L)
  show "[g] \<noteq> []" by simp
next
  fix u n assume "match_len (lits L @ [Rep1 k]) u = Some n"
  then have "prefix L u" by (rule directive_head)
  moreover have "prefix [g] L" by (simp add: L)
  ultimately show "prefix [g] u" by (rule prefix_order.trans [rotated])
next
  fix w X assume "w \<noteq> ([]::string)"
  with g L show "match_len (lits L @ [Rep1 k]) (w @ [g] @ X) = match_len (lits L @ [Rep1 k]) w"
    by (intro directive_stop) simp_all
next
  fix u n Z
  assume "match_len (lits L @ [Rep1 k]) u = Some n" "(Z = []) = (drop n u = [])"
    "drop n u \<noteq> [] \<longrightarrow> hd Z = hd (drop n u)"
  with ds show "match_len (lits L @ [Rep1 k]) ((L @ ds) @ Z) = Some (length (L @ ds))"
    by (intro directive_again [where ds = ds and u = u and n = n]) simp_all
qed

lemma wildcard_sub_directive:
  assumes M: "M = g # g2 # M'" "g \<notin> set (g2 # M')" and g: "\<not> in_class k g"
    and A: "A = g # A'" "g \<notin> set A'" "\<And>Z. \<not> prefix M (A @ Z)"
    and B: "g \<notin> set B" "B \<noteq> []" "hd B \<noteq> g2"
    and r: "r = g # r'" "g \<notin> set r'" "\<And>Z. \<not> prefix M (r @ Z)"
  shows "re_findall (lits M @ [Rep1 k]) (re_sub (lits A @ AnyChar # lits B) r s)
           = re_findall (lits M @ [Rep1 k]) s"
proof (rule re_findall_sub_other [where H = "[g]"])
  show "\<And>u n. match_len (lits A @ AnyChar # lits B) u = Some n \<Longrightarrow> 0 < n" by (rule wildcard_pos)
  show "\<And>u n. match_len (lits M @ [Rep1 k]) u = Some n \<Longrightarrow> 0 < n" by (rule directive_pos)
  show "prefix [g] r" by (simp add: r)
next
  fix u n assume "match_len (lits A @ AnyChar # lits B) u = Some n"
  then have "prefix A u" by (rule wildcard_head)
  moreover have "prefix [g] A" by (simp add: A)
  ultimately show "prefix [g] u" by (rule prefix_order.trans [rotated])
next
  fix w X assume "w \<noteq> ([]::string)"
  with g M show "match_len (lits M @ [Rep1 k]) (w @ [g] @ X) = match_len (lits M @ [Rep1 k]) w"
    by (intro directive_stop) simp_all
next
  fix u n i assume "match_len (lits A @ AnyChar # lits B) u = Some n" "i < n"
  then show "match_len (lits M @ [Rep1 k]) (drop i u) = None"
    using M(1) A B by (intro wildcard_inside_directive [where A = A and B = B and n = n]) simp_all
next
  fix i Z assume i: "i < length r"
  have z: "match_len (lits M @ [Rep1 k]) (r @ Z) = None"
    using r(3) [of Z] by (simp add: match_len_directive)
  have "hd M \<notin> set (tl r)" using r M by simp
  with M(1) show "match_len (lits M @ [Rep1 k]) (drop i r @ Z) = None"
    using z i by (intro directive_none_after_head) simp_all
qed

lemma literal_sub_directive:
  assumes M: "M \<noteq> []" "h \<notin> set (tl M)" "hd M \<notin> set T" "hd M \<notin> set r" and h: "\<not> in_class k h"
    and T: "T = h # T'" and r: "r = h # r'"
  shows "re_findall (lits M @ [Rep1 k]) (re_sub (lits T) r s) = re_findall (lits M @ [Rep1 k]) s"
proof (rule re_findall_sub_other [where H = "[h]"])
  show "\<And>u n. match_len (lits T) u = Some n \<Longrightarrow> 0 < n"
    using T by (intro literal_pos [of T]) simp_all
  show "\<And>u n. match_len (lits M @ [Rep1 k]) u = Some n \<Longrightarrow> 0 < n" by (rule directive_pos)
  show "prefix [h] r" by (simp add: r)
next
  fix u n assume "match_len (lits T) u = Some n"
  then have "prefix T u" by (rule literal_head)
  moreover have "prefix [h] T" by (simp add: T)
  ultimately show "prefix [h] u" by (rule prefix_order.trans [rotated])
next
  fix w X assume "w \<noteq> ([]::string)"
  with h M show "match_len (lits M @ [Rep1 k]) (w @ [h] @ X) = match_len (lits M @ [Rep1 k]) w"
    by (intro directive_stop) simp_all
next
  fix u n i assume "match_len (lits T) u = Some n" "i < n"
  then show "match_len (lits M @ [Rep1 k]) (drop i u) = None"
    using M by (intro literal_inside_directive [where T = T and n = n]) simp_all
next
  fix i Z assume i: "i < length r"
  with M show "match_len (lits M @ [Rep1 k]) (drop i r @ Z) = None"
    by (intro directive_none_inside) simp_all
qed

lemma literal_sub_none:
  assumes T: "T = H @ T'" and r: "r = H @ r'" and H: "H \<noteq> []"
    and border: "\<And>k. 0 < k \<Longrightarrow> k < length T \<Longrightarrow> \<not> prefix (take (length H) (drop k T)) H"
    and inside: "\<And>i. i < length r \<Longrightarrow> \<not> prefix (drop i r) T"
    and len: "length r \<le> length T"
  shows "re_findall (lits T) (re_sub (lits T) r s) = []"
proof (rule re_findall_sub_none [where H = H])
  show "\<And>u n. match_len (lits T) u = Some n \<Longrightarrow> 0 < n"
    using T H by (intro literal_pos [of T]) simp_all
  show "prefix H r" by (simp add: r)
next
  fix u n assume "match_len (lits T) u = Some n"
  then have "prefix T u" by (rule literal_head)
  moreover have "prefix H T" by (simp add: T)
  ultimately show "prefix H u" by (rule prefix_order.trans [rotated])
next
  fix w X assume "w \<noteq> ([]::string)"
  with border show "match_len (lits T) (w @ H @ X) = match_len (lits T) w"
    by (intro literal_stop) simp_all
next
  fix i Z assume i: "i < length r"
  from inside [OF i] len show "match_len (lits T) (drop i r @ Z) = None"
    by (intro literal_none_short) simp_all
qed

subsection \<open>The patterns of the two scripts\<close>

lemma replacement_texts:
  "threshold_directive 150 = ''#define THRESHOLD '' @ ''150''"
  "delay_directive 512 = ''#define DELAY '' @ ''512''"
  \<open>''#include "gates/compose_'' @ py_lower ''NOT'' @ ''.cpp"'' = ''#include "gates/compose_not.cpp"''\<close>
  \<open>test_gate_call ''NOT'' ''do_not_gate'' 1 = ''test_gate("NOT", do_not_gate, 1);''\<close>
  by code_simp+

lemma directives_differ:
  "\<not> (prefix ''#define THRESHOLD '' u \<and> prefix ''#define DELAY '' u)"
  "\<not> (prefix ''#define DELAY '' u \<and> prefix ''#define THRESHOLD '' u)"
  by (auto simp: prefix_def)

lemma sub_threshold_keeps_delay:
  "re_findall delay_pattern (re_sub threshold_pattern (threshold_directive 150) s)
     = re_findall delay_pattern s"
  unfolding threshold_pattern_def delay_pattern_def replacement_texts
  by (rule directive_sub_other
        [where g = "CHR ''#''" and L' = "''define THRESHOLD ''" and M' = "''define DELAY ''"])
     (simp_all add: is_digit_def directives_differ)

lemma sub_delay_keeps_threshold:
  "re_findall threshold_pattern (re_sub delay_pattern (delay_directive 512) s)
     = re_findall threshold_pattern s"
  unfolding threshold_pattern_def delay_pattern_def replacement_texts
  by (rule directive_sub_other
        [where g = "CHR ''#''" and L' = "''define DELAY ''" and M' = "''define THRESHOLD ''"])
     (simp_all add: is_digit_def directives_differ)

lemma sub_threshold_self:
  "re_findall threshold_pattern (re_sub threshold_pattern (threshold_directive 150) s)
     = map (\<lambda>m. ''#define THRESHOLD 150'') (re_findall threshold_pattern s)"
  unfolding threshold_pattern_def replacement_texts
  using directive_sub_self
    [where g = "CHR ''#''" and L = "''#define THRESHOLD ''" and L' = "''define THRESHOLD ''"
       and k = Digit and ds = "''150''" and s = s]
  by (simp add: is_digit_def)

lemma sub_delay_self:
  "re_findall delay_pattern (re_sub delay_pattern (delay_directive 512) s)
     = map (\<lambda>m. ''#define DELAY 512'') (re_findall delay_pattern s)"
  unfolding delay_pattern_def replacement_texts
  using directive_sub_self
    [where g = "CHR ''#''" and L = "''#define DELAY ''" and L' = "''define DELAY ''"
       and k = Digit and ds = "''512''" and s = s]
  by (simp add: is_digit_def)

lemma include_pattern_parts:
  \<open>include_pattern = lits ''#include "gates/compose'' @ AnyChar # lits ''cpp"''\<close>
  by (simp add: include_pattern_def)

lemma sub_include_keeps_threshold:
  \<open>re_findall threshold_pattern (re_sub include_pattern ''#include "gates/compose_not.cpp"'' s)
     = re_findall threshold_pattern s\<close>
  unfolding threshold_pattern_def include_pattern_parts
  by (rule wildcard_sub_directive
        [where g = "CHR ''#''" and ?g2.0 = "CHR ''d''" and M' = "''efine THRESHOLD ''"
           and A' = \<open>''include "gates/compose''\<close> and r' = \<open>''include "gates/compose_not.cpp"''\<close>])
     (simp_all add: is_digit_def)

lemma sub_include_keeps_delay:
  \<open>re_findall delay_pattern (re_sub include_pattern ''#include "gates/compose_not.cpp"'' s)
     = re_findall delay_pattern s\<close>
  unfolding delay_pattern_def include_pattern_parts
  by (rule wildcard_sub_directive
        [where g = "CHR ''#''" and ?g2.0 = "CHR ''d''" and M' = "''efine DELAY ''"
           and A' = \<open>''include "gates/compose''\<close> and r' = \<open>''include "gates/compose_not.cpp"''\<close>])
     (simp_all add: is_digit_def)

lemma sub_include_temp_keeps_threshold:
  \<open>re_findall threshold_pattern (re_sub include_pattern ''#include "gates/compose_temp.cpp"'' s)
     = re_findall threshold_pattern s\<close>
  unfolding threshold_pattern_def include_pattern_parts
  by (rule wildcard_sub_directive
        [where g = "CHR ''#''" and ?g2.0 = "CHR ''d''" and M' = "''efine THRESHOLD ''"
           and A' = \<open>''include "gates/compose''\<close> and r' = \<open>''include "gates/compose_temp.cpp"''\<close>])
     (simp_all add: is_digit_def)

lemma sub_include_temp_keeps_delay:
  \<open>re_findall delay_pattern (re_sub include_pattern ''#include "gates/compose_temp.cpp"'' s)
     = re_findall delay_pattern s\<close>
  unfolding delay_pattern_def include_pattern_parts
  by (rule wildcard_sub_directive
        [where g = "CHR ''#''" and ?g2.0 = "CHR ''d''" and M' = "''efine DELAY ''"
           and A' = \<open>''include "gates/compose''\<close> and r' = \<open>''include "gates/compose_temp.cpp"''\<close>])
     (simp_all add: is_digit_def)

lemma placeholder_pattern_text: "placeholder_pattern = lits placeholder_text"
  by (simp add: placeholder_pattern_def placeholder_text_def)

lemma sub_placeholder_keeps_threshold:
  \<open>re_findall threshold_pattern (re_sub placeholder_pattern ''test_gate("NOT", do_not_gate, 1);'' s)
     = re_findall threshold_pattern s\<close>
  unfolding threshold_pattern_def placeholder_pattern_text
  by (rule literal_sub_directive
        [where h = "CHR ''t''" and T' = "tl placeholder_text"
           and r' = \<open>''est_gate("NOT", do_not_gate, 1);''\<close>])
     (simp_all add: is_digit_def placeholder_text_def)

lemma sub_placeholder_keeps_delay:
  \<open>re_findall delay_pattern (re_sub placeholder_pattern ''test_gate("NOT", do_not_gate, 1);'' s)
     = re_findall delay_pattern s\<close>
  unfolding delay_pattern_def placeholder_pattern_text
  by (rule literal_sub_directive
        [where h = "CHR ''t''" and T' = "tl placeholder_text"
           and r' = \<open>''est_gate("NOT", do_not_gate, 1);''\<close>])
     (simp_all add: is_digit_def placeholder_text_def)

lemma list_all_upt: "list_all P [a..<b] \<Longrightarrow> a \<le> k \<Longrightarrow> k < b \<Longrightarrow> P k"
  by (simp add: list_all_iff)

lemma placeholder_border:
  "list_all (\<lambda>k. \<not> prefix (take 3 (drop k placeholder_text)) ''tes'')
     [1..<length placeholder_text]"
  by code_simp

lemma placeholder_replacement:
  \<open>list_all (\<lambda>i. \<not> prefix (drop i ''test_gate("NOT", do_not_gate, 1);'') placeholder_text)
     [0..<length ''test_gate("NOT", do_not_gate, 1);'']\<close>
  by code_simp

lemma sub_placeholder_none:
  \<open>re_findall placeholder_pattern
     (re_sub placeholder_pattern ''test_gate("NOT", do_not_gate, 1);'' s) = []\<close>
  unfolding placeholder_pattern_text
proof (rule literal_sub_none [where H = "''tes''" and T' = "drop 3 placeholder_text"
          and r' = \<open>''t_gate("NOT", do_not_gate, 1);''\<close>])
  show "placeholder_text = ''tes'' @ drop 3 placeholder_text"
    by (simp add: placeholder_text_def)
  show \<open>''test_gate("NOT", do_not_gate, 1);'' = ''tes'' @ ''t_gate("NOT", do_not_gate, 1);''\<close>
    by simp
  show "''tes'' \<noteq> []" by simp
  show \<open>length ''test_gate("NOT", do_not_gate, 1);'' \<le> length placeholder_text\<close>
    by (simp add: placeholder_text_def)
next
  fix k assume k: "0 < k" "k < length placeholder_text"
  have "1 \<le> k" using k(1) by arith
  with placeholder_border have np: "\<not> prefix (take 3 (drop k placeholder_text)) ''tes''"
    using k(2) by (rule list_all_upt)
  have l: "length ''tes'' = 3" by simp
  show "\<not> prefix (take (length ''tes'') (drop k placeholder_text)) ''tes''"
    unfolding l by (rule np)
next
  fix i assume i: \<open>i < length ''test_gate("NOT", do_not_gate, 1);''\<close>
  show \<open>\<not> prefix (drop i ''test_gate("NOT", do_not_gate, 1);'') placeholder_text\<close>
    using placeholder_replacement _ i
    by (rule list_all_upt
          [where P = \<open>\<lambda>i. \<not> prefix (drop i ''test_gate("NOT", do_not_gate, 1);'') placeholder_text\<close>])
       simp
qed

lemma one_match: "length ms = 1 \<Longrightarrow> map (\<lambda>m. r) ms = [r]"
  by (cases ms) simp_all

text \<open>
  C8. A template with exactly one threshold directive and exactly one delay directive
  (as \<^verbatim>\<open>re.findall\<close> counts them), generated for the gate NOT with threshold 150 and delay
  512: in the composition text and in the main text of the finalizer the one threshold
  directive found is \<^verbatim>\<open>#define THRESHOLD 150\<close> and the one delay directive found is
  \<^verbatim>\<open>#define DELAY 512\<close>, and the main text holds no placeholder call any more. The same
  holds for the directives of the main text the sweep generates.
\<close>

theorem generated_variant_directives:
  assumes "length (re_findall threshold_pattern content_compose) = 1"
    and "length (re_findall delay_pattern content_compose) = 1"
    and "length (re_findall threshold_pattern content_main) = 1"
    and "length (re_findall delay_pattern content_main) = 1"
  shows
    \<open>re_findall threshold_pattern (modified_content_compose 150 512 content_compose)
       = [''#define THRESHOLD 150''] \<and>
     re_findall delay_pattern (modified_content_compose 150 512 content_compose)
       = [''#define DELAY 512''] \<and>
     re_findall threshold_pattern
         (modified_content_main_gate ''NOT'' ''do_not_gate'' 1 150 512 content_main)
       = [''#define THRESHOLD 150''] \<and>
     re_findall delay_pattern
         (modified_content_main_gate ''NOT'' ''do_not_gate'' 1 150 512 content_main)
       = [''#define DELAY 512''] \<and>
     re_findall placeholder_pattern
         (modified_content_main_gate ''NOT'' ''do_not_gate'' 1 150 512 content_main)
       = [] \<and>
     re_findall threshold_pattern (modified_content_main 150 512 content_main)
       = [''#define THRESHOLD 150''] \<and>
     re_findall delay_pattern (modified_content_main 150 512 content_main)
       = [''#define DELAY 512'']\<close>
proof -
  have t: "re_findall threshold_pattern
             (re_sub delay_pattern (delay_directive 512)
               (re_sub threshold_pattern (threshold_directive 150) s))
           = [''#define THRESHOLD 150'']"
    if "length (re_findall threshold_pattern s) = 1" for s
    using that by (simp only: sub_delay_keeps_threshold sub_threshold_self one_match)
  have d: "re_findall delay_pattern
             (re_sub delay_pattern (delay_directive 512)
               (re_sub threshold_pattern (threshold_directive 150) s))
           = [''#define DELAY 512'']"
    if "length (re_findall delay_pattern s) = 1" for s
    using that by (simp only: sub_delay_self sub_threshold_keeps_delay one_match)
  have g: \<open>modified_content_main_gate ''NOT'' ''do_not_gate'' 1 150 512 content_main
             = re_sub placeholder_pattern ''test_gate("NOT", do_not_gate, 1);''
                 (re_sub include_pattern ''#include "gates/compose_not.cpp"''
                   (re_sub delay_pattern (delay_directive 512)
                     (re_sub threshold_pattern (threshold_directive 150) content_main)))\<close>
    unfolding modified_content_main_gate_def by (simp only: replacement_texts)
  have c1: "re_findall threshold_pattern (modified_content_compose 150 512 content_compose)
              = [''#define THRESHOLD 150'']"
    unfolding modified_content_compose_def using assms(1) by (rule t)
  have c2: "re_findall delay_pattern (modified_content_compose 150 512 content_compose)
              = [''#define DELAY 512'']"
    unfolding modified_content_compose_def using assms(2) by (rule d)
  have m1: \<open>re_findall threshold_pattern
               (modified_content_main_gate ''NOT'' ''do_not_gate'' 1 150 512 content_main)
             = [''#define THRESHOLD 150'']\<close>
    unfolding g sub_placeholder_keeps_threshold sub_include_keeps_threshold
    using assms(3) by (rule t)
  have m2: \<open>re_findall delay_pattern
               (modified_content_main_gate ''NOT'' ''do_not_gate'' 1 150 512 content_main)
             = [''#define DELAY 512'']\<close>
    unfolding g sub_placeholder_keeps_delay sub_include_keeps_delay
    using assms(4) by (rule d)
  have m3: \<open>re_findall placeholder_pattern
               (modified_content_main_gate ''NOT'' ''do_not_gate'' 1 150 512 content_main) = []\<close>
    unfolding g by (rule sub_placeholder_none)
  have s1: "re_findall threshold_pattern (modified_content_main 150 512 content_main)
              = [''#define THRESHOLD 150'']"
    unfolding modified_content_main_def sub_include_temp_keeps_threshold
    using assms(3) by (rule t)
  have s2: "re_findall delay_pattern (modified_content_main 150 512 content_main)
              = [''#define DELAY 512'']"
    unfolding modified_content_main_def sub_include_temp_keeps_delay
    using assms(4) by (rule d)
  from c1 c2 m1 m2 m3 s1 s2 show ?thesis by (intro conjI)
qed

theorem generated_variant_directives_witness:
  \<open>length (re_findall threshold_pattern template_compose) = 1 \<and>
   length (re_findall delay_pattern template_compose) = 1 \<and>
   length (re_findall threshold_pattern template_main) = 1 \<and>
   length (re_findall delay_pattern template_main) = 1 \<and>
   modified_content_compose 150 512 template_compose
     = ''#define THRESHOLD 150\<newline>#define DELAY 512\<newline>int compose();\<newline>'' \<and>
   modified_content_main_gate ''NOT'' ''do_not_gate'' 1 150 512 template_main
     = ''#define THRESHOLD 150\<newline>#define DELAY 512\<newline>#include "gates/compose_not.cpp"\<newline>'' @
       ''test_gate("NOT", do_not_gate, 1);\<newline>'' \<and>
   re_findall threshold_pattern (modified_content_compose 150 512 template_compose)
     = [''#define THRESHOLD 150''] \<and>
   re_findall delay_pattern (modified_content_compose 150 512 template_compose)
     = [''#define DELAY 512''] \<and>
   re_findall threshold_pattern
       (modified_content_main_gate ''NOT'' ''do_not_gate'' 1 150 512 template_main)
     = [''#define THRESHOLD 150''] \<and>
   re_findall delay_pattern
       (modified_content_main_gate ''NOT'' ''do_not_gate'' 1 150 512 template_main)
     = [''#define DELAY 512''] \<and>
   re_findall placeholder_pattern
       (modified_content_main_gate ''NOT'' ''do_not_gate'' 1 150 512 template_main)
     = [] \<and>
   re_findall threshold_pattern (modified_content_main 150 512 template_main)
     = [''#define THRESHOLD 150''] \<and>
   re_findall delay_pattern (modified_content_main 150 512 template_main)
     = [''#define DELAY 512''] \<and>
   map_of GATE_FUNCTIONS ''NOT'' = Some (''do_not_gate'', 1) \<and>
   map_of BEST_CONFIGS ''NOT'' = Some (150, 512)\<close>
proof -
  have h1: "length (re_findall threshold_pattern template_compose) = 1" by code_simp
  have h2: "length (re_findall delay_pattern template_compose) = 1" by code_simp
  have h3: "length (re_findall threshold_pattern template_main) = 1" by code_simp
  have h4: "length (re_findall delay_pattern template_main) = 1" by code_simp
  have e1: "modified_content_compose 150 512 template_compose
     = ''#define THRESHOLD 150\<newline>#define DELAY 512\<newline>int compose();\<newline>''"
    by code_simp
  have e2: \<open>modified_content_main_gate ''NOT'' ''do_not_gate'' 1 150 512 template_main
     = ''#define THRESHOLD 150\<newline>#define DELAY 512\<newline>#include "gates/compose_not.cpp"\<newline>'' @
       ''test_gate("NOT", do_not_gate, 1);\<newline>''\<close>
    by code_simp
  have f: "map_of GATE_FUNCTIONS ''NOT'' = Some (''do_not_gate'', 1)"
    by (simp add: GATE_FUNCTIONS_def)
  have b: "map_of BEST_CONFIGS ''NOT'' = Some (150, 512)"
    by (simp add: BEST_CONFIGS_def)
  from generated_variant_directives [OF h1 h2 h3 h4] h1 h2 h3 h4 e1 e2 f b
  show ?thesis by (intro conjI) (simp_all only:)
qed

end
